theory Spec2Isabelle
  imports Main "HOL-Library.Word"
begin

unbundle bit_operations_syntax

section \<open>Buffers\<close>

text \<open>
  A Node \<^verbatim>\<open>Buffer\<close> is a fixed-length sequence of bytes. Only the operations that
  \<^verbatim>\<open>merkle_tree.ts\<close> calls are modelled, each with the clamping that Node performs.
\<close>

type_synonym bytes = "8 word list"

text \<open>\<^verbatim>\<open>Buffer.alloc(n)\<close>: \<open>n\<close> zero bytes.\<close>

definition Buffer_alloc :: "nat \<Rightarrow> bytes" where
  "Buffer_alloc n = replicate n 0"

text \<open>\<^verbatim>\<open>buf.slice(s, e)\<close> for \<open>0 \<le> s \<le> e\<close>: both ends are clamped to the length.\<close>

definition buf_slice :: "bytes \<Rightarrow> nat \<Rightarrow> nat \<Rightarrow> bytes" where
  "buf_slice b s e = take (e - s) (drop s b)"

text \<open>
  \<^verbatim>\<open>src.copy(target, targetStart)\<close>: overwrites \<open>target\<close> from \<open>targetStart\<close> on with as
  many bytes of \<open>src\<close> as fit; the length of \<open>target\<close> never changes. The updated
  target is returned.
\<close>

definition buf_copy :: "bytes \<Rightarrow> bytes \<Rightarrow> nat \<Rightarrow> bytes" where
  "buf_copy src target targetStart =
     (if length target \<le> targetStart then target
      else take targetStart target
           @ take (length target - targetStart) src
           @ drop (targetStart + length src) target)"

text \<open>The four bytes of an unsigned 32-bit integer, least significant first.\<close>

definition u32le :: "nat \<Rightarrow> bytes" where
  "u32le v = [of_nat (v mod 256), of_nat (v div 256 mod 256),
              of_nat (v div 65536 mod 256), of_nat (v div 16777216 mod 256)]"

datatype error =
    BadDepth            \<comment> \<open>\<^verbatim>\<open>Error('Bad depth')\<close>\<close>
  | HashNotFound nat    \<comment> \<open>\<^verbatim>\<open>Error("Hash not found for level " + (i + 1))\<close>\<close>
  | NotFound            \<comment> \<open>the rejection of \<^verbatim>\<open>db.get\<close> on a missing key\<close>
  | RangeError          \<comment> \<open>Node's \<^verbatim>\<open>ERR_OUT_OF_RANGE\<close> of the integer accessors\<close>
  | TypeError           \<comment> \<open>a method call on \<^verbatim>\<open>undefined\<close>\<close>

text \<open>
  \<^verbatim>\<open>buf.writeUInt32LE(v, off)\<close> raises when \<open>v\<close> does not fit 32 bits or when the four
  bytes do not fit the buffer.
\<close>

definition buf_writeUInt32LE :: "bytes \<Rightarrow> nat \<Rightarrow> nat \<Rightarrow> error + bytes" where
  "buf_writeUInt32LE b v off =
     (if 2 ^ 32 \<le> v \<or> length b < off + 4 then Inl RangeError
      else Inr (take off b @ u32le v @ drop (off + 4) b))"

text \<open>\<^verbatim>\<open>buf.readUInt32LE(off)\<close> raises when fewer than four bytes are left at \<open>off\<close>.\<close>

definition buf_readUInt32LE :: "bytes \<Rightarrow> nat \<Rightarrow> error + nat" where
  "buf_readUInt32LE b off =
     (if length b < off + 4 then Inl RangeError
      else Inr (unat (b ! off) + 256 * unat (b ! (off + 1))
                + 65536 * unat (b ! (off + 2)) + 16777216 * unat (b ! (off + 3))))"

text \<open>\<^verbatim>\<open>Buffer.from(name)\<close>: the bytes of the string.\<close>

definition Buffer_from :: "string \<Rightarrow> bytes" where
  "Buffer_from s = map (\<lambda>c. of_nat (of_char c)) s"

section \<open>The hasher\<close>

text \<open>
  \<^verbatim>\<open>Sha256Hasher\<close> lives in \<^verbatim>\<open>sha256_hasher.ts\<close>, which is not part of the sources at
  hand. The tree only calls its two methods, so the hasher is a parameter of every
  operation that hashes.
\<close>

record hasher =
  hash :: "bytes \<Rightarrow> bytes"
  compress :: "bytes \<Rightarrow> bytes \<Rightarrow> bytes"

text \<open>The contract the tree relies on: every digest has 32 bytes.\<close>

definition digest32 :: "hasher \<Rightarrow> bool" where
  "digest32 h \<longleftrightarrow> (\<forall>x. length (hash h x) = 32) \<and> (\<forall>l r. length (compress h l r) = 32)"

section \<open>The store\<close>

text \<open>
  The LevelUp store is one key space of byte strings. It is modelled by the history of
  its \<^verbatim>\<open>put\<close> calls, most recent first: \<^verbatim>\<open>get\<close> finds the most recent value of a key,
  and the history keeps what was overwritten. A string key and the buffer of its bytes
  are the same key (\<^verbatim>\<open>new\<close> reads \<^verbatim>\<open>Buffer.from(name)\<close>, \<^verbatim>\<open>writeMetaData\<close> writes
  \<^verbatim>\<open>this.name\<close>). Calls take effect in program order.
\<close>

type_synonym db = "(bytes \<times> bytes) list"

definition db_get :: "db \<Rightarrow> bytes \<Rightarrow> bytes option" where
  "db_get d k = map_of d k"

definition db_put :: "db \<Rightarrow> bytes \<Rightarrow> bytes \<Rightarrow> db" where
  "db_put d k v = (k, v) # d"

section \<open>The tree\<close>

definition MAX_DEPTH :: int where
  "MAX_DEPTH = 32"

text \<open>The fields of a \<^verbatim>\<open>MerkleTree\<close> object, the store it refers to included.\<close>

record tree =
  db :: db
  name :: string
  depth :: nat
  root :: bytes

type_synonym hashpath = "(bytes \<times> bytes) list"

subsection \<open>Construction\<close>

text \<open>
  One pass of the constructor's loop body at level \<open>i\<close>. \<open>hashPerLevel\<close> is a JavaScript
  array that is filled from index \<open>depth\<close> downwards, so a map from indices.
\<close>

definition initLevel ::
  "hasher \<Rightarrow> nat \<Rightarrow> nat \<Rightarrow> (nat \<rightharpoonup> bytes) \<times> db \<Rightarrow> (error \<times> db) + ((nat \<rightharpoonup> bytes) \<times> db)" where
  "initLevel h thisDepth i s =
     (let (hashPerLevel, d) = s in
      if thisDepth = i then
        Inr (hashPerLevel(i \<mapsto> hash h (Buffer_alloc 64)), d)
      else
        (case hashPerLevel (i + 1) of
           None \<Rightarrow> Inl (HashNotFound (i + 1), d)
         | Some childHash \<Rightarrow>
             let combinedHash = compress h childHash childHash;
                 levelBuffer = buf_copy childHash (buf_copy childHash (Buffer_alloc 64) 0) 32
             in Inr (hashPerLevel(i \<mapsto> combinedHash), db_put d combinedHash levelBuffer)))"

text \<open>\<^verbatim>\<open>for (let i = depth; i >= 0; i--)\<close>, entered at \<open>i\<close>.\<close>

fun initLoop ::
  "hasher \<Rightarrow> nat \<Rightarrow> nat \<Rightarrow> (nat \<rightharpoonup> bytes) \<times> db \<Rightarrow> (error \<times> db) + ((nat \<rightharpoonup> bytes) \<times> db)" where
  "initLoop h thisDepth 0 s = initLevel h thisDepth 0 s"
| "initLoop h thisDepth (Suc j) s =
     (case initLevel h thisDepth (Suc j) s of
        Inl e \<Rightarrow> Inl e
      | Inr s' \<Rightarrow> initLoop h thisDepth j s')"

text \<open>
  The constructor. A failure carries the store as it is when the exception is raised.
  A buffer is always truthy, so a given root always selects the restoring branch.
\<close>

definition MerkleTree ::
  "hasher \<Rightarrow> db \<Rightarrow> string \<Rightarrow> int \<Rightarrow> bytes option \<Rightarrow> (error \<times> db) + tree" where
  "MerkleTree h d nm dep rt =
     (if \<not> (dep \<ge> 1 \<and> dep \<le> MAX_DEPTH) then Inl (BadDepth, d)
      else
        (case rt of
           Some r \<Rightarrow>
             Inr \<lparr>db = d, name = nm, depth = nat dep, root = buf_copy r (Buffer_alloc 32) 0\<rparr>
         | None \<Rightarrow>
             (case initLoop h (nat dep) (nat dep) (Map.empty, d) of
                Inl e \<Rightarrow> Inl e
              | Inr (hashPerLevel, d') \<Rightarrow>
                  (case hashPerLevel 0 of
                     None \<Rightarrow> Inl (TypeError, d')
                   | Some h0 \<Rightarrow>
                       Inr \<lparr>db = d', name = nm, depth = nat dep,
                            root = buf_copy h0 (Buffer_alloc 32) 0\<rparr>))))"

text \<open>\<^verbatim>\<open>writeMetaData()\<close> without a batch. When it raises, nothing has been written.\<close>

definition writeMetaData :: "tree \<Rightarrow> error + tree" where
  "writeMetaData t =
     (case buf_writeUInt32LE (buf_copy (root t) (Buffer_alloc 40) 0) (depth t) 32 of
        Inl e \<Rightarrow> Inl e
      | Inr data \<Rightarrow> Inr (t\<lparr>db := db_put (db t) (Buffer_from (name t)) data\<rparr>))"

text \<open>
  \<^verbatim>\<open>MerkleTree.new(db, name, depth)\<close>. A failed \<^verbatim>\<open>get\<close> is caught and selects fresh
  construction; any stored value selects restoration.
\<close>

definition new :: "hasher \<Rightarrow> db \<Rightarrow> string \<Rightarrow> int \<Rightarrow> (error \<times> db) + tree" where
  "new h d nm dep =
     (case db_get d (Buffer_from nm) of
        Some meta \<Rightarrow>
          (let rt = buf_slice meta 0 32 in
           case buf_readUInt32LE meta 32 of
             Inl e \<Rightarrow> Inl (e, d)
           | Inr dep' \<Rightarrow> MerkleTree h d nm (int dep') (Some rt))
      | None \<Rightarrow>
          (case MerkleTree h d nm dep None of
             Inl e \<Rightarrow> Inl e
           | Inr t \<Rightarrow>
               (case writeMetaData t of
                  Inl e \<Rightarrow> Inl (e, db t)
                | Inr t' \<Rightarrow> Inr t')))"

definition getRoot :: "tree \<Rightarrow> bytes" where
  "getRoot t = root t"

subsection \<open>Traversal\<close>

text \<open>
  \<^verbatim>\<open>(index >> k) & 1\<close>: JavaScript converts \<open>index\<close> to a signed 32-bit integer, shifts
  arithmetically by the low five bits of \<open>k\<close>, which is \<open>k mod 32\<close> also for a negative
  \<open>k\<close>, and masks; the result is truthy when it is not 0.
\<close>

definition shouldGoRight :: "int \<Rightarrow> int \<Rightarrow> bool" where
  "shouldGoRight index k =
     (signed_drop_bit (nat (k mod 32)) (word_of_int index :: 32 word) AND 1 \<noteq> 0)"

text \<open>
  The recursive helper of \<^verbatim>\<open>getHashPath\<close>. It ends when \<open>depth + 1\<close> reaches
  \<open>this.depth\<close>; called beyond that level it would go on for as long as the store
  answers, so it is a partial function: \<open>None\<close> is "does not return".
\<close>

partial_function (option) getHashPathRecursively ::
  "tree \<Rightarrow> int \<Rightarrow> bytes \<Rightarrow> nat \<Rightarrow> (error + hashpath) option" where
  "getHashPathRecursively t index current dep =
     (case db_get (db t) current of
        None \<Rightarrow> Some (Inl NotFound)
      | Some fromDb \<Rightarrow>
          (let leftHash = buf_slice fromDb 0 32;
               rightHash = buf_slice fromDb 32 64
           in if depth t = dep + 1 then Some (Inr [(leftHash, rightHash)])
              else
                Option.bind
                  (getHashPathRecursively t index
                     (if shouldGoRight index (int (depth t) - int dep - 1) then rightHash else leftHash)
                     (dep + 1))
                  (\<lambda>res. case res of
                     Inl e \<Rightarrow> Some (Inl e)
                   | Inr accPath \<Rightarrow> Some (Inr (accPath @ [(leftHash, rightHash)])))))"

declare getHashPathRecursively.simps [code]

text \<open>\<^verbatim>\<open>getHashPath(index)\<close>: the outcome and the object afterwards.\<close>

definition getHashPath :: "tree \<Rightarrow> int \<Rightarrow> ((error + hashpath) \<times> tree) option" where
  "getHashPath t index =
     map_option (\<lambda>res. (res, t)) (getHashPathRecursively t index (root t) 0)"

subsection \<open>Update\<close>

text \<open>
  The recursive helper of \<^verbatim>\<open>updateElement\<close>. It reads on the way down and writes on the
  way up, so the store is threaded through; \<open>thisDepth\<close> is \<open>this.depth\<close>.
\<close>

partial_function (option) updateRecursively ::
  "hasher \<Rightarrow> nat \<Rightarrow> int \<Rightarrow> bytes \<Rightarrow> db \<Rightarrow> bytes \<Rightarrow> nat \<Rightarrow> ((error + bytes) \<times> db) option" where
  "updateRecursively h thisDepth index val d current dep =
     (if thisDepth = dep then Some (Inr (hash h val), d)
      else
        (case db_get d current of
           None \<Rightarrow> Some (Inl NotFound, d)
         | Some fromDb \<Rightarrow>
             (if shouldGoRight index (int thisDepth - int dep - 1) then
                Option.bind
                  (updateRecursively h thisDepth index val d (buf_slice fromDb 32 64) (dep + 1))
                  (\<lambda>(res, d'). case res of
                     Inl e \<Rightarrow> Some (Inl e, d')
                   | Inr rightHash \<Rightarrow>
                       (let leftHash = buf_slice fromDb 0 32;
                            newHash = compress h leftHash rightHash;
                            newChildrenBuffer =
                              buf_copy rightHash (buf_copy leftHash (Buffer_alloc 64) 0) 32
                        in Some (Inr newHash, db_put d' newHash newChildrenBuffer)))
              else
                Option.bind
                  (updateRecursively h thisDepth index val d (buf_slice fromDb 0 32) (dep + 1))
                  (\<lambda>(res, d'). case res of
                     Inl e \<Rightarrow> Some (Inl e, d')
                   | Inr leftHash \<Rightarrow>
                       (let rightHash = buf_slice fromDb 32 64;
                            newHash = compress h leftHash rightHash;
                            newChildrenBuffer =
                              buf_copy rightHash (buf_copy leftHash (Buffer_alloc 64) 0) 32
                        in Some (Inr newHash, db_put d' newHash newChildrenBuffer))))))"

declare updateRecursively.simps [code]

text \<open>
  \<^verbatim>\<open>updateElement(index, value)\<close>: the outcome (the new root) and the object afterwards.
  When \<^verbatim>\<open>writeMetaData\<close> raises, the nodes are written and the root is replaced already.
\<close>

definition updateElement ::
  "hasher \<Rightarrow> tree \<Rightarrow> int \<Rightarrow> bytes \<Rightarrow> ((error + bytes) \<times> tree) option" where
  "updateElement h t index val =
     (case updateRecursively h (depth t) index val (db t) (root t) 0 of
        None \<Rightarrow> None
      | Some (Inl e, d') \<Rightarrow> Some (Inl e, t\<lparr>db := d'\<rparr>)
      | Some (Inr newRoot, d') \<Rightarrow>
          (let t1 = t\<lparr>db := d', root := buf_copy newRoot (root t) 0\<rparr> in
           case writeMetaData t1 of
             Inl e \<Rightarrow> Some (Inl e, t1)
           | Inr t2 \<Rightarrow> Some (Inr (root t2), t2)))"

section \<open>The second variant of the class\<close>

text \<open>
  \<^verbatim>\<open>merkle_tree.ts\<close> holds a second version of the class. Its constructor concatenates
  the children instead of copying them into a 64-byte buffer, writes a metadata record
  itself before it sets the root (so that record carries the 32 zero bytes of the
  initial root), and keeps the given root as it is when restoring; its
  \<^verbatim>\<open>getHashPath\<close> descends to the leaf level and appends to one shared array.
\<close>

definition initLevel2 ::
  "hasher \<Rightarrow> nat \<Rightarrow> nat \<Rightarrow> (nat \<rightharpoonup> bytes) \<times> db \<Rightarrow> (error \<times> db) + ((nat \<rightharpoonup> bytes) \<times> db)" where
  "initLevel2 h thisDepth i s =
     (let (nodes, d) = s in
      if i = thisDepth then
        Inr (nodes(i \<mapsto> hash h (Buffer_alloc 64)), d)
      else
        (case nodes (i + 1) of
           None \<Rightarrow> Inl (TypeError, d)
         | Some child \<Rightarrow>
             let hashKey = compress h child child;
                 hashValue = child @ child
             in Inr (nodes(i \<mapsto> hashKey), db_put d hashKey hashValue)))"

fun initLoop2 ::
  "hasher \<Rightarrow> nat \<Rightarrow> nat \<Rightarrow> (nat \<rightharpoonup> bytes) \<times> db \<Rightarrow> (error \<times> db) + ((nat \<rightharpoonup> bytes) \<times> db)" where
  "initLoop2 h thisDepth 0 s = initLevel2 h thisDepth 0 s"
| "initLoop2 h thisDepth (Suc j) s =
     (case initLevel2 h thisDepth (Suc j) s of
        Inl e \<Rightarrow> Inl e
      | Inr s' \<Rightarrow> initLoop2 h thisDepth j s')"

text \<open>
  The constructor of the second variant. The rejection of its own \<^verbatim>\<open>writeMetaData\<close>
  call is caught, so a failure there leaves the store as it is and construction goes
  on. \<open>nodes[0]\<close> is always assigned by the loop; an undefined root would fail at its
  first use.
\<close>

definition MerkleTree2 ::
  "hasher \<Rightarrow> db \<Rightarrow> string \<Rightarrow> int \<Rightarrow> bytes option \<Rightarrow> (error \<times> db) + tree" where
  "MerkleTree2 h d nm dep rt =
     (if \<not> (dep \<ge> 1 \<and> dep \<le> MAX_DEPTH) then Inl (BadDepth, d)
      else
        (case rt of
           Some r \<Rightarrow> Inr \<lparr>db = d, name = nm, depth = nat dep, root = r\<rparr>
         | None \<Rightarrow>
             (case initLoop2 h (nat dep) (nat dep) (Map.empty, d) of
                Inl e \<Rightarrow> Inl e
              | Inr (nodes, d') \<Rightarrow>
                  (let t0 = \<lparr>db = d', name = nm, depth = nat dep, root = Buffer_alloc 32\<rparr>;
                       t1 = (case writeMetaData t0 of Inl e \<Rightarrow> t0 | Inr t \<Rightarrow> t)
                   in case nodes 0 of
                        None \<Rightarrow> Inl (TypeError, db t1)
                      | Some n0 \<Rightarrow> Inr (t1\<lparr>root := n0\<rparr>)))))"

definition new2 :: "hasher \<Rightarrow> db \<Rightarrow> string \<Rightarrow> int \<Rightarrow> (error \<times> db) + tree" where
  "new2 h d nm dep =
     (case db_get d (Buffer_from nm) of
        Some meta \<Rightarrow>
          (let rt = buf_slice meta 0 32 in
           case buf_readUInt32LE meta 32 of
             Inl e \<Rightarrow> Inl (e, d)
           | Inr dep' \<Rightarrow> MerkleTree2 h d nm (int dep') (Some rt))
      | None \<Rightarrow>
          (case MerkleTree2 h d nm dep None of
             Inl e \<Rightarrow> Inl e
           | Inr t \<Rightarrow>
               (case writeMetaData t of
                  Inl e \<Rightarrow> Inl (e, db t)
                | Inr t' \<Rightarrow> Inr t')))"

definition isLeaf :: "tree \<Rightarrow> nat \<Rightarrow> bool" where
  "isLeaf t index = (depth t = index)"

text \<open>
  The helper of the second \<^verbatim>\<open>getHashPath\<close>; \<open>hashPath\<close> is the array it appends to,
  returned as it is after the call.
\<close>

partial_function (option) getHashPathRecursive ::
  "tree \<Rightarrow> int \<Rightarrow> hashpath \<Rightarrow> bytes \<Rightarrow> nat \<Rightarrow> (error + hashpath) option" where
  "getHashPathRecursive t index hashPath current dep =
     (if isLeaf t dep then Some (Inr hashPath)
      else
        (case db_get (db t) current of
           None \<Rightarrow> Some (Inl NotFound)
         | Some parent \<Rightarrow>
             (let left = buf_slice parent 0 32;
                  right = buf_slice parent 32 64
              in Option.bind
                   (getHashPathRecursive t index hashPath
                      (if shouldGoRight index (int (depth t) - int dep - 1) then right else left)
                      (dep + 1))
                   (\<lambda>res. case res of
                      Inl e \<Rightarrow> Some (Inl e)
                    | Inr hashPath' \<Rightarrow> Some (Inr (hashPath' @ [(left, right)]))))))"

declare getHashPathRecursive.simps [code]

definition getHashPath2 :: "tree \<Rightarrow> int \<Rightarrow> ((error + hashpath) \<times> tree) option" where
  "getHashPath2 t index =
     map_option (\<lambda>res. (res, t)) (getHashPathRecursive t index [] (root t) 0)"

section \<open>A hasher for running examples\<close>

text \<open>
  The examples below run the tree on a small stand-in hasher with 32-byte digests:
  \<open>hash\<close> pads or cuts its input to 32 bytes, \<open>compress\<close> combines two digests
  byte by byte.
\<close>

definition demo_hasher :: hasher where
  "demo_hasher =
     \<lparr>hash = (\<lambda>x. take 32 (x @ replicate 32 0)),
      compress = (\<lambda>l r. take 32 (map (\<lambda>(a, b). a + 2 * b + 1) (zip l r) @ replicate 32 0))\<rparr>"

section \<open>Reference definitions\<close>

text \<open>
  The digest of level \<open>i\<close> of an all-zero tree of depth \<open>D\<close>, as the specification
  gives it: the leaf level is the hash of 64 zero bytes, every level above compresses
  the digest of the level below with itself.
\<close>

function digest :: "hasher \<Rightarrow> nat \<Rightarrow> nat \<Rightarrow> bytes" where
  "digest h D i =
     (if D \<le> i then hash h (replicate 64 0)
      else compress h (digest h D (Suc i)) (digest h D (Suc i)))"
  by pat_completeness auto
termination
  by (relation "measure (\<lambda>(h, D, i). D - i)") auto

declare digest.simps [simp del]

text \<open>The node entries of the levels below \<open>n\<close>, the root's first.\<close>

definition level_entries :: "hasher \<Rightarrow> nat \<Rightarrow> nat \<Rightarrow> db" where
  "level_entries h D n =
     map (\<lambda>i. (digest h D i, digest h D (Suc i) @ digest h D (Suc i))) [0..<n]"

text \<open>
  The node reached from \<open>cur\<close> at level \<open>lvl\<close> after \<open>m\<close> steps down, going right at a
  level \<open>k\<close> when bit \<open>D - k - 1\<close> of the index is set and left otherwise.
\<close>

fun descend :: "db \<Rightarrow> nat \<Rightarrow> int \<Rightarrow> bytes \<Rightarrow> nat \<Rightarrow> nat \<Rightarrow> bytes option" where
  "descend d D index cur lvl 0 = Some cur"
| "descend d D index cur lvl (Suc m) =
     (case db_get d cur of
        None \<Rightarrow> None
      | Some v \<Rightarrow>
          descend d D index
            (if bit index (D - lvl - 1) then buf_slice v 32 64 else buf_slice v 0 32)
            (Suc lvl) m)"

text \<open>The two children that the store records for a node.\<close>

definition children_of :: "db \<Rightarrow> bytes \<Rightarrow> (bytes \<times> bytes) option" where
  "children_of d n = map_option (\<lambda>v. (buf_slice v 0 32, buf_slice v 32 64)) (db_get d n)"

definition pair_from ::
  "db \<Rightarrow> nat \<Rightarrow> int \<Rightarrow> bytes \<Rightarrow> nat \<Rightarrow> nat \<Rightarrow> (bytes \<times> bytes) option" where
  "pair_from d D index cur lvl m =
     (case descend d D index cur lvl m of None \<Rightarrow> None | Some n \<Rightarrow> children_of d n)"

text \<open>The node that the route of \<open>index\<close> visits at level \<open>k\<close>, and its children.\<close>

definition node_at :: "tree \<Rightarrow> int \<Rightarrow> nat \<Rightarrow> bytes option" where
  "node_at t index k = descend (db t) (depth t) index (root t) 0 k"

definition pair_at :: "tree \<Rightarrow> int \<Rightarrow> nat \<Rightarrow> (bytes \<times> bytes) option" where
  "pair_at t index k = pair_from (db t) (depth t) index (root t) 0 k"

section \<open>A running example\<close>

text \<open>
  The depth-2 tree named \<open>t\<close> that \<open>new\<close> builds over the example hasher on an empty
  store, and the same tree after leaf 3 is set to 64 bytes of \<open>0x01\<close>.
\<close>

definition demo_db :: db where
  "demo_db =
     [([116], replicate 32 4 @ [2, 0, 0, 0, 0, 0, 0, 0]),
      (replicate 32 4, replicate 32 1 @ replicate 32 1),
      (replicate 32 1, replicate 32 0 @ replicate 32 0)]"

definition demo_tree :: tree where
  "demo_tree = \<lparr>db = demo_db, name = ''t'', depth = 2, root = replicate 32 4\<rparr>"

definition demo_tree' :: tree where
  "demo_tree' =
     \<lparr>db = [([116], replicate 32 8 @ [2, 0, 0, 0, 0, 0, 0, 0]),
            (replicate 32 8, replicate 32 1 @ replicate 32 3),
            (replicate 32 3, replicate 32 0 @ replicate 32 1)] @ demo_db,
      name = ''t'', depth = 2, root = replicate 32 8\<rparr>"

text \<open>
  The same at depth 3: the tree that \<open>new\<close> builds, and the tree after leaf 3 is set to
  64 bytes of \<open>0x01\<close>.
\<close>

definition demo3_db :: db where
  "demo3_db =
     [([116], replicate 32 13 @ [3, 0, 0, 0, 0, 0, 0, 0]),
      (replicate 32 13, replicate 32 4 @ replicate 32 4),
      (replicate 32 4, replicate 32 1 @ replicate 32 1),
      (replicate 32 1, replicate 32 0 @ replicate 32 0)]"

definition demo3_tree :: tree where
  "demo3_tree = \<lparr>db = demo3_db, name = ''t'', depth = 3, root = replicate 32 13\<rparr>"

definition demo3_tree' :: tree where
  "demo3_tree' =
     \<lparr>db = [([116], replicate 32 17 @ [3, 0, 0, 0, 0, 0, 0, 0]),
            (replicate 32 17, replicate 32 8 @ replicate 32 4),
            (replicate 32 8, replicate 32 1 @ replicate 32 3),
            (replicate 32 3, replicate 32 0 @ replicate 32 1)] @ demo3_db,
      name = ''t'', depth = 3, root = replicate 32 17\<rparr>"

text \<open>A sequence of updates, each of which has to succeed.\<close>

fun run_updates :: "hasher \<Rightarrow> tree \<Rightarrow> (int \<times> bytes) list \<Rightarrow> tree option" where
  "run_updates h t [] = Some t"
| "run_updates h t (u # us) =
     (case updateElement h t (fst u) (snd u) of
        Some (Inr r, t') \<Rightarrow> run_updates h t' us
      | _ \<Rightarrow> None)"

text \<open>
  What restoration needs of a tree: a depth the constructor accepts, a 32-byte root, and
  under the name the record that \<open>writeMetaData\<close> writes for this root and depth.
\<close>

definition restorable :: "tree \<Rightarrow> bool" where
  "restorable t \<longleftrightarrow>
     1 \<le> depth t \<and> depth t \<le> 32 \<and> length (root t) = 32 \<and>
     db_get (db t) (Buffer_from (name t)) = Some (root t @ u32le (depth t) @ [0, 0, 0, 0])"

section \<open>Store invariants\<close>

text \<open>
  A key that has ever been given a 64-byte node value has only ever been given that
  value. The history of the store tells: no write replaced a node entry by different
  content, be it another node or the metadata record.
\<close>

definition write_once :: "db \<Rightarrow> bool" where
  "write_once d =
     list_all (\<lambda>(k, v). list_all (\<lambda>(k', v'). k = k' \<and> length v = 64 \<longrightarrow> v' = v) d) d"

text \<open>
  Below the digest \<open>n\<close> the store holds a complete subtree of height \<open>k\<close>: every node
  down to the level above the leaves has an entry of 64 bytes.
\<close>

fun full_tree :: "db \<Rightarrow> bytes \<Rightarrow> nat \<Rightarrow> bool" where
  "full_tree d n 0 = True"
| "full_tree d n (Suc k) =
     (case db_get d n of
        None \<Rightarrow> False
      | Some v \<Rightarrow>
          length v = 64 \<and> full_tree d (buf_slice v 0 32) k \<and> full_tree d (buf_slice v 32 64) k)"

text \<open>A fully constructed tree: what the constructor and the updates maintain.\<close>

definition fully_constructed :: "tree \<Rightarrow> bool" where
  "fully_constructed t \<longleftrightarrow>
     1 \<le> depth t \<and> depth t \<le> 32 \<and> length (root t) = 32 \<and>
     full_tree (db t) (root t) (depth t)"

text \<open>
  The verifier's walk up a hash path, the pair next to the leaf first: at step \<open>j\<close> the
  slot that bit \<open>j\<close> of the index selects has to hold the current digest, and the
  compressed pair is the next digest.
\<close>

fun recompute :: "hasher \<Rightarrow> int \<Rightarrow> nat \<Rightarrow> hashpath \<Rightarrow> bytes \<Rightarrow> bytes option" where
  "recompute h index j [] cur = Some cur"
| "recompute h index j (p # ps) cur =
     (if (if bit index j then snd p else fst p) = cur
      then recompute h index (Suc j) ps (compress h (fst p) (snd p))
      else None)"

text \<open>
  The two kinds of entries: a node entry is keyed by the digest of the two halves of its
  64-byte value; the metadata record is 40 bytes under the name of the tree.
\<close>

definition node_entry :: "hasher \<Rightarrow> bytes \<times> bytes \<Rightarrow> bool" where
  "node_entry h e \<longleftrightarrow>
     length (snd e) = 64 \<and>
     fst e = compress h (buf_slice (snd e) 0 32) (buf_slice (snd e) 32 64)"

definition meta_entry :: "string \<Rightarrow> bytes \<times> bytes \<Rightarrow> bool" where
  "meta_entry nm e \<longleftrightarrow> fst e = Buffer_from nm \<and> length (snd e) = 40"

definition content_addressed :: "hasher \<Rightarrow> string \<Rightarrow> db \<Rightarrow> bool" where
  "content_addressed h nm d = list_all (\<lambda>e. node_entry h e \<or> meta_entry nm e) d"

text \<open>
  What is assumed of the hasher and of the name, on the values that the store has seen:
  no two different node values compress to the same digest, and no node is stored under
  the name of the tree.
\<close>

definition collision_free :: "hasher \<Rightarrow> db \<Rightarrow> bool" where
  "collision_free h d =
     list_all (\<lambda>(k, v). list_all (\<lambda>(k', v').
        length v = 64 \<and> length v' = 64 \<and>
        compress h (buf_slice v 0 32) (buf_slice v 32 64)
          = compress h (buf_slice v' 0 32) (buf_slice v' 32 64) \<longrightarrow> v' = v) d) d"

definition name_fresh :: "string \<Rightarrow> db \<Rightarrow> bool" where
  "name_fresh nm d = list_all (\<lambda>(k, v). length v = 64 \<longrightarrow> k \<noteq> Buffer_from nm) d"

text \<open>What construction establishes and every update maintains.\<close>

definition tree_inv :: "hasher \<Rightarrow> string \<Rightarrow> tree \<Rightarrow> bool" where
  "tree_inv h nm t \<longleftrightarrow> content_addressed h nm (db t) \<and> fully_constructed t \<and> name t = nm"


section \<open>Buffer facts\<close>

lemma length_buf_copy [simp]: "length (buf_copy src target n) = length target"
  by (auto simp: buf_copy_def)

lemma buf_copy_alloc32 [simp]: "length r = 32 \<Longrightarrow> buf_copy r (Buffer_alloc 32) 0 = r"
  by (simp add: buf_copy_def Buffer_alloc_def)

lemma buf_copy_same_length: "length r = length tgt \<Longrightarrow> buf_copy r tgt 0 = r"
  by (cases "tgt = []") (simp_all add: buf_copy_def)

lemma buf_copy_pair [simp]:
  "length l = 32 \<Longrightarrow> length r = 32 \<Longrightarrow>
   buf_copy r (buf_copy l (Buffer_alloc 64) 0) 32 = l @ r"
  by (simp add: buf_copy_def Buffer_alloc_def)

lemma buf_slice_left [simp]: "length l = 32 \<Longrightarrow> buf_slice (l @ r) 0 32 = l"
  by (simp add: buf_slice_def)

lemma buf_slice_right [simp]:
  "length l = 32 \<Longrightarrow> length r = 32 \<Longrightarrow> buf_slice (l @ r) 32 64 = r"
  by (simp add: buf_slice_def)

lemma length_buf_slice_left: "64 \<le> length v \<Longrightarrow> length (buf_slice v 0 32) = 32"
  by (simp add: buf_slice_def)

lemma length_buf_slice_right: "64 \<le> length v \<Longrightarrow> length (buf_slice v 32 64) = 32"
  by (simp add: buf_slice_def)

lemma buf_slice_join: "length v = 64 \<Longrightarrow> buf_slice v 0 32 @ buf_slice v 32 64 = v"
  by (simp add: buf_slice_def)

lemma length_u32le [simp]: "length (u32le n) = 4"
  by (simp add: u32le_def)

lemma replicate4: "replicate 4 x = [x, x, x, x]"
  by (simp add: numeral_eq_Suc)

text \<open>The four little-endian digits of a 32-bit number give the number back.\<close>

lemma u32_digits:
  fixes n :: nat
  assumes "n < 2 ^ 32"
  shows "n mod 256 + 256 * (n div 256 mod 256) + 65536 * (n div 65536 mod 256)
         + 16777216 * (n div 16777216 mod 256) = n"
proof -
  define q1 where "q1 = n div 256"
  define q2 where "q2 = q1 div 256"
  define q3 where "q3 = q2 div 256"
  have e1: "n = n mod 256 + 256 * q1" by (simp add: q1_def)
  have e2: "q1 = q1 mod 256 + 256 * q2" by (simp add: q2_def)
  have e3: "q2 = q2 mod 256 + 256 * q3" by (simp add: q3_def)
  have b: "n div 65536 = q2" by (simp add: q1_def q2_def div_mult2_eq[symmetric])
  have c: "n div 16777216 = q3" by (simp add: q1_def q2_def q3_def div_mult2_eq[symmetric])
  have "q3 < 256" using assms unfolding c[symmetric] by (simp add: less_mult_imp_div_less)
  then have a: "q3 mod 256 = q3" by simp
  show ?thesis unfolding b c a q1_def[symmetric] using e1 e2 e3 by linarith
qed

lemma unat_byte_mod [simp]: "unat (of_nat (k mod 256) :: 8 word) = k mod 256"
  by (simp add: unat_of_nat)

lemma readUInt32LE_written:
  assumes "length r = 32" "n < 2 ^ 32"
  shows "buf_readUInt32LE (r @ u32le n @ pad) 32 = Inr n"
proof -
  have "buf_readUInt32LE (r @ u32le n @ pad) 32 =
        Inr (n mod 256 + 256 * (n div 256 mod 256) + 65536 * (n div 65536 mod 256)
         + 16777216 * (n div 16777216 mod 256))"
    using assms(1) by (simp add: buf_readUInt32LE_def u32le_def nth_append del: mod_less)
  then show ?thesis by (simp only: u32_digits [OF assms(2)])
qed

lemma writeMetaData_eq:
  assumes "length (root t) = 32" "depth t < 2 ^ 32"
  shows "writeMetaData t =
         Inr (t\<lparr>db := (Buffer_from (name t), root t @ u32le (depth t) @ [0, 0, 0, 0]) # db t\<rparr>)"
  using assms
  by (simp add: writeMetaData_def buf_writeUInt32LE_def buf_copy_def Buffer_alloc_def
      db_put_def replicate4)

text \<open>For shifts below 32 the JavaScript expression reads bit \<open>k\<close> of the index.\<close>

lemma and_one_neq_0: "(w :: 32 word) AND 1 \<noteq> 0 \<longleftrightarrow> bit w 0"
  by (auto simp add: and_one_eq bit_0 odd_iff_mod_2_eq_one)

lemma shouldGoRight_nat: "k < 32 \<Longrightarrow> shouldGoRight index (int k) = bit index k"
  by (simp add: shouldGoRight_def and_one_neq_0 bit_signed_drop_bit_iff bit_word_of_int_iff)

lemma shouldGoRight_bit:
  "0 \<le> k \<Longrightarrow> k < 32 \<Longrightarrow> shouldGoRight index k = bit index (nat k)"
  using shouldGoRight_nat [of "nat k" index] by simp

lemma nat_one_plus [simp]: "nat (1 + int n) = Suc n"
  by simp

section \<open>Construction\<close>

lemma initLevel_ok:
  assumes "i \<le> D" "i < D \<longrightarrow> hpl (Suc i) \<noteq> None"
  shows "\<exists>hpl' d'. initLevel h D i (hpl, d) = Inr (hpl', d') \<and> hpl' i \<noteq> None"
  using assms by (cases "D = i") (auto simp: initLevel_def Let_def split: option.splits)

lemma initLoop_ok:
  assumes "i \<le> D" "i < D \<longrightarrow> hpl (Suc i) \<noteq> None"
  shows "\<exists>hpl' d'. initLoop h D i (hpl, d) = Inr (hpl', d') \<and> hpl' 0 \<noteq> None"
  using assms
proof (induction i arbitrary: hpl d)
  case 0
  then show ?case using initLevel_ok [of 0 D hpl h d] by simp
next
  case (Suc j)
  obtain hpl1 d1 where 1: "initLevel h D (Suc j) (hpl, d) = Inr (hpl1, d1)" "hpl1 (Suc j) \<noteq> None"
    using initLevel_ok [of "Suc j" D hpl h d] Suc.prems by auto
  have "\<exists>hpl' d'. initLoop h D j (hpl1, d1) = Inr (hpl', d') \<and> hpl' 0 \<noteq> None"
    using Suc.IH [of hpl1 d1] Suc.prems 1 by simp
  then show ?case using 1 by simp
qed

lemma MerkleTree_depth_check:
  "if 1 \<le> dep \<and> dep \<le> 32
   then \<exists>t. MerkleTree h d nm dep rt = Inr t
   else MerkleTree h d nm dep rt = Inl (BadDepth, d)"
proof (cases "1 \<le> dep \<and> dep \<le> 32")
  case False
  then show ?thesis by (auto simp: MerkleTree_def MAX_DEPTH_def)
next
  case True
  show ?thesis
  proof (cases rt)
    case (Some r)
    with True show ?thesis by (simp add: MerkleTree_def MAX_DEPTH_def)
  next
    case None
    obtain hpl' d' where
      "initLoop h (nat dep) (nat dep) (Map.empty, d) = Inr (hpl', d')" "hpl' 0 \<noteq> None"
      using initLoop_ok [of "nat dep" "nat dep" Map.empty h d] by auto
    with True None show ?thesis by (auto simp: MerkleTree_def MAX_DEPTH_def)
  qed
qed

lemma initLevel2_ok:
  assumes "i \<le> D" "i < D \<longrightarrow> nodes (Suc i) \<noteq> None"
  shows "\<exists>nodes' d'. initLevel2 h D i (nodes, d) = Inr (nodes', d') \<and> nodes' i \<noteq> None"
  using assms by (cases "i = D") (auto simp: initLevel2_def Let_def split: option.splits)

lemma initLoop2_ok:
  assumes "i \<le> D" "i < D \<longrightarrow> nodes (Suc i) \<noteq> None"
  shows "\<exists>nodes' d'. initLoop2 h D i (nodes, d) = Inr (nodes', d') \<and> nodes' 0 \<noteq> None"
  using assms
proof (induction i arbitrary: nodes d)
  case 0
  then show ?case using initLevel2_ok [of 0 D nodes h d] by simp
next
  case (Suc j)
  obtain n1 d1 where 1: "initLevel2 h D (Suc j) (nodes, d) = Inr (n1, d1)" "n1 (Suc j) \<noteq> None"
    using initLevel2_ok [of "Suc j" D nodes h d] Suc.prems by auto
  have "\<exists>nodes' d'. initLoop2 h D j (n1, d1) = Inr (nodes', d') \<and> nodes' 0 \<noteq> None"
    using Suc.IH [of n1 d1] Suc.prems 1 by simp
  then show ?case using 1 by simp
qed

lemma MerkleTree2_depth_check:
  "if 1 \<le> dep \<and> dep \<le> 32
   then \<exists>t. MerkleTree2 h d nm dep rt = Inr t
   else MerkleTree2 h d nm dep rt = Inl (BadDepth, d)"
proof (cases "1 \<le> dep \<and> dep \<le> 32")
  case False
  then show ?thesis by (auto simp: MerkleTree2_def MAX_DEPTH_def)
next
  case True
  show ?thesis
  proof (cases rt)
    case (Some r)
    with True show ?thesis by (simp add: MerkleTree2_def MAX_DEPTH_def)
  next
    case None
    obtain nodes' d' where
      "initLoop2 h (nat dep) (nat dep) (Map.empty, d) = Inr (nodes', d')" "nodes' 0 \<noteq> None"
      using initLoop2_ok [of "nat dep" "nat dep" Map.empty h d] by auto
    with True None show ?thesis by (auto simp: MerkleTree2_def MAX_DEPTH_def Let_def)
  qed
qed

text \<open>
  Claim C7. The constructor, in both variants of the class, accepts exactly the depths
  from 1 to 32: for such a depth it returns a tree, with or without a root to restore;
  for any other depth it raises \<open>Bad depth\<close>, and the store is the one it was given.
\<close>

theorem constructor_depth_check:
  "if 1 \<le> dep \<and> dep \<le> 32
   then (\<exists>t. MerkleTree h d nm dep rt = Inr t) \<and> (\<exists>t. MerkleTree2 h d nm dep rt = Inr t)
   else MerkleTree h d nm dep rt = Inl (BadDepth, d)
        \<and> MerkleTree2 h d nm dep rt = Inl (BadDepth, d)"
  using MerkleTree_depth_check [of dep h d nm rt] MerkleTree2_depth_check [of dep h d nm rt]
  by (simp split: if_splits)

theorem constructor_depth_check_witness:
  "(\<exists>t. MerkleTree demo_hasher [] ''t'' 2 None = Inr t)
   \<and> (\<exists>t. MerkleTree2 demo_hasher [] ''t'' 2 None = Inr t)
   \<and> MerkleTree demo_hasher [] ''t'' 0 None = Inl (BadDepth, [])
   \<and> MerkleTree2 demo_hasher [] ''t'' 0 None = Inl (BadDepth, [])
   \<and> MerkleTree demo_hasher [] ''t'' 33 None = Inl (BadDepth, [])
   \<and> MerkleTree2 demo_hasher [] ''t'' 33 None = Inl (BadDepth, [])"
  using constructor_depth_check [of 2 demo_hasher "[]" "''t''" None]
    constructor_depth_check [of 0 demo_hasher "[]" "''t''" None]
    constructor_depth_check [of 33 demo_hasher "[]" "''t''" None]
  by simp

section \<open>Restoration\<close>

text \<open>
  Claim C8. When the store holds a 40-byte metadata record under the name, whose bytes
  32 to 35 decode to a depth \<open>n\<close> between 1 and 32, \<open>new\<close> returns, in both variants
  of the class, the tree with depth \<open>n\<close> and the first 32 bytes of the record as root,
  whatever depth argument (and hasher) it is given. The store of the result is the store
  given: nothing is written, and the result depends on the store through the metadata
  record only.
\<close>

theorem new_ignores_depth_argument:
  assumes "db_get d (Buffer_from nm) = Some meta" "length meta = 40"
    and "buf_readUInt32LE meta 32 = Inr n" "1 \<le> n" "n \<le> 32"
  shows "new h d nm dep = Inr \<lparr>db = d, name = nm, depth = n, root = take 32 meta\<rparr>
         \<and> new2 h d nm dep = Inr \<lparr>db = d, name = nm, depth = n, root = take 32 meta\<rparr>"
  using assms
  by (simp add: new_def new2_def MerkleTree_def MerkleTree2_def MAX_DEPTH_def buf_slice_def)

theorem new_ignores_depth_argument_witness:
  "db_get [([116], replicate 32 7 @ [2, 0, 0, 0, 0, 0, 0, 0])] (Buffer_from ''t'')
     = Some (replicate 32 7 @ [2, 0, 0, 0, 0, 0, 0, 0])
   \<and> buf_readUInt32LE (replicate 32 7 @ [2, 0, 0, 0, 0, 0, 0, 0]) 32 = Inr 2
   \<and> new demo_hasher [([116], replicate 32 7 @ [2, 0, 0, 0, 0, 0, 0, 0])] ''t'' 17
     = Inr \<lparr>db = [([116], replicate 32 7 @ [2, 0, 0, 0, 0, 0, 0, 0])], name = ''t'',
            depth = 2, root = replicate 32 7\<rparr>
   \<and> new2 demo_hasher [([116], replicate 32 7 @ [2, 0, 0, 0, 0, 0, 0, 0])] ''t'' 17
     = Inr \<lparr>db = [([116], replicate 32 7 @ [2, 0, 0, 0, 0, 0, 0, 0])], name = ''t'',
            depth = 2, root = replicate 32 7\<rparr>"
proof -
  let ?meta = "replicate 32 7 @ [2, 0, 0, 0, 0, 0, 0, 0] :: bytes"
  have g: "db_get [([116], ?meta)] (Buffer_from ''t'') = Some ?meta"
    by (simp add: db_get_def Buffer_from_def)
  have r: "buf_readUInt32LE ?meta 32 = Inr 2"
    by (simp add: buf_readUInt32LE_def nth_append)
  show ?thesis
    using g r new_ignores_depth_argument [OF g _ r, of demo_hasher 17] by simp
qed

section \<open>Fresh construction\<close>

lemma length_digest: "digest32 h \<Longrightarrow> length (digest h D i) = 32"
  by (subst digest.simps) (simp add: digest32_def)

lemma digest_leaf: "digest h D D = hash h (Buffer_alloc 64)"
  by (subst digest.simps) (simp add: Buffer_alloc_def)

lemma digest_inner: "i < D \<Longrightarrow> digest h D i = compress h (digest h D (Suc i)) (digest h D (Suc i))"
  by (subst digest.simps) simp

lemma initLevel_digest:
  assumes "digest32 h" "i \<le> D" "i < D \<longrightarrow> hpl (Suc i) = Some (digest h D (Suc i))"
  shows "\<exists>hpl'. initLevel h D i (hpl, d) =
            Inr (hpl', (if i < D then [(digest h D i, digest h D (Suc i) @ digest h D (Suc i))] else []) @ d)
          \<and> hpl' i = Some (digest h D i)"
proof (cases "i < D")
  case True
  then show ?thesis using assms
    by (simp add: initLevel_def Let_def db_put_def length_digest digest_inner [OF True, symmetric])
next
  case False
  with assms have "D = i" by simp
  then show ?thesis by (simp add: initLevel_def digest_leaf)
qed

lemma initLoop_digest:
  assumes "digest32 h" "i \<le> D" "i < D \<longrightarrow> hpl (Suc i) = Some (digest h D (Suc i))"
  shows "\<exists>hpl'. initLoop h D i (hpl, d) = Inr (hpl', level_entries h D (min (Suc i) D) @ d)
          \<and> hpl' 0 = Some (digest h D 0)"
  using assms
proof (induction i arbitrary: hpl d)
  case 0
  then show ?case using initLevel_digest [of h 0 D hpl d]
    by (cases "0 < D") (auto simp: level_entries_def min_def)
next
  case (Suc j)
  obtain hpl1 where 1:
    "initLevel h D (Suc j) (hpl, d) =
       Inr (hpl1, (if Suc j < D then [(digest h D (Suc j), digest h D (Suc (Suc j)) @ digest h D (Suc (Suc j)))] else []) @ d)"
    "hpl1 (Suc j) = Some (digest h D (Suc j))"
    using initLevel_digest [of h "Suc j" D hpl d] Suc.prems by auto
  let ?d1 = "(if Suc j < D then [(digest h D (Suc j), digest h D (Suc (Suc j)) @ digest h D (Suc (Suc j)))] else []) @ d"
  obtain hpl' where 2: "initLoop h D j (hpl1, ?d1) = Inr (hpl', level_entries h D (min (Suc j) D) @ ?d1)"
     "hpl' 0 = Some (digest h D 0)"
    using Suc.IH [of hpl1 ?d1] Suc.prems 1 by auto
  have "level_entries h D (min (Suc j) D) @ ?d1 = level_entries h D (min (Suc (Suc j)) D) @ d"
  proof (cases "Suc j < D")
    case True
    then show ?thesis by (simp add: level_entries_def min_def)
  next
    case False
    with Suc.prems(2) have "D = Suc j" by simp
    then show ?thesis by (simp add: level_entries_def)
  qed
  then show ?case using 1 2 by simp
qed

lemma new_fresh:
  assumes "digest32 h" "1 \<le> D" "D \<le> 32" "db_get d (Buffer_from nm) = None"
  shows "new h d nm (int D) =
           Inr \<lparr>db = (Buffer_from nm, digest h D 0 @ u32le D @ [0, 0, 0, 0])
                      # level_entries h D D @ d,
                name = nm, depth = D, root = digest h D 0\<rparr>"
proof -
  obtain hpl' where 1: "initLoop h D D (Map.empty, d) = Inr (hpl', level_entries h D D @ d)"
    "hpl' 0 = Some (digest h D 0)"
    using initLoop_digest [of h D D Map.empty d] assms(1) by auto
  have c: "MerkleTree h d nm (int D) None =
      Inr \<lparr>db = level_entries h D D @ d, name = nm, depth = D, root = digest h D 0\<rparr>"
    using assms 1 by (simp add: MerkleTree_def MAX_DEPTH_def length_digest)
  have "D < 2 ^ 32" using assms(3) by simp
  then show ?thesis using assms(4) c
    by (simp add: new_def writeMetaData_eq length_digest [OF assms(1)])
qed

lemma initLevel2_digest:
  assumes "i \<le> D" "i < D \<longrightarrow> nodes (Suc i) = Some (digest h D (Suc i))"
  shows "\<exists>nodes'. initLevel2 h D i (nodes, d) =
            Inr (nodes', (if i < D then [(digest h D i, digest h D (Suc i) @ digest h D (Suc i))] else []) @ d)
          \<and> nodes' i = Some (digest h D i)"
proof (cases "i < D")
  case True
  then show ?thesis using assms
    by (simp add: initLevel2_def Let_def db_put_def digest_inner [OF True, symmetric])
next
  case False
  with assms have "i = D" by simp
  then show ?thesis by (simp add: initLevel2_def digest_leaf)
qed

lemma initLoop2_digest:
  assumes "i \<le> D" "i < D \<longrightarrow> nodes (Suc i) = Some (digest h D (Suc i))"
  shows "\<exists>nodes'. initLoop2 h D i (nodes, d) = Inr (nodes', level_entries h D (min (Suc i) D) @ d)
          \<and> nodes' 0 = Some (digest h D 0)"
  using assms
proof (induction i arbitrary: nodes d)
  case 0
  then show ?case using initLevel2_digest [of 0 D nodes h d]
    by (cases "0 < D") (auto simp: level_entries_def min_def)
next
  case (Suc j)
  let ?d1 = "(if Suc j < D then [(digest h D (Suc j), digest h D (Suc (Suc j)) @ digest h D (Suc (Suc j)))] else []) @ d"
  obtain n1 where 1: "initLevel2 h D (Suc j) (nodes, d) = Inr (n1, ?d1)"
    "n1 (Suc j) = Some (digest h D (Suc j))"
    using initLevel2_digest [of "Suc j" D nodes h d] Suc.prems by auto
  obtain nodes' where 2: "initLoop2 h D j (n1, ?d1) = Inr (nodes', level_entries h D (min (Suc j) D) @ ?d1)"
     "nodes' 0 = Some (digest h D 0)"
    using Suc.IH [of n1 ?d1] Suc.prems 1 by auto
  have "level_entries h D (min (Suc j) D) @ ?d1 = level_entries h D (min (Suc (Suc j)) D) @ d"
  proof (cases "Suc j < D")
    case True
    then show ?thesis by (simp add: level_entries_def min_def)
  next
    case False
    with Suc.prems(1) have "D = Suc j" by simp
    then show ?thesis by (simp add: level_entries_def)
  qed
  then show ?case using 1 2 by simp
qed

lemma new2_fresh:
  assumes "digest32 h" "1 \<le> D" "D \<le> 32" "db_get d (Buffer_from nm) = None"
  shows "new2 h d nm (int D) =
           Inr \<lparr>db = (Buffer_from nm, digest h D 0 @ u32le D @ [0, 0, 0, 0])
                      # (Buffer_from nm, replicate 32 0 @ u32le D @ [0, 0, 0, 0])
                      # level_entries h D D @ d,
                name = nm, depth = D, root = digest h D 0\<rparr>"
proof -
  obtain nodes' where 1: "initLoop2 h D D (Map.empty, d) = Inr (nodes', level_entries h D D @ d)"
    "nodes' 0 = Some (digest h D 0)"
    using initLoop2_digest [of D D Map.empty h d] by auto
  have D32: "D < 2 ^ 32" using assms(3) by simp
  let ?t0 = "\<lparr>db = level_entries h D D @ d, name = nm, depth = D, root = Buffer_alloc 32\<rparr>"
  have w0: "writeMetaData ?t0 =
      Inr (?t0\<lparr>db := (Buffer_from nm, replicate 32 0 @ u32le D @ [0, 0, 0, 0]) # level_entries h D D @ d\<rparr>)"
    using writeMetaData_eq [of ?t0] D32 by (simp add: Buffer_alloc_def)
  have c: "MerkleTree2 h d nm (int D) None =
      Inr \<lparr>db = (Buffer_from nm, replicate 32 0 @ u32le D @ [0, 0, 0, 0]) # level_entries h D D @ d,
           name = nm, depth = D, root = digest h D 0\<rparr>"
    using assms(2,3) 1 w0 by (simp add: MerkleTree2_def MAX_DEPTH_def)
  show ?thesis using assms(4) c D32
    by (simp add: new2_def writeMetaData_eq length_digest [OF assms(1)])
qed

section \<open>The running example\<close>

lemma digest32_demo: "digest32 demo_hasher"
  by (auto simp add: digest32_def demo_hasher_def min_def)

lemma demo_hash: "hash demo_hasher (replicate 64 x) = replicate 32 x"
  by (simp add: demo_hasher_def)

lemma demo_compress:
  "compress demo_hasher (replicate 32 x) (replicate 32 y) = replicate 32 (x + 2 * y + 1)"
  by (simp add: demo_hasher_def zip_replicate)

lemma demo_hash_alloc: "hash demo_hasher (Buffer_alloc 64) = replicate 32 0"
  by (simp add: demo_hasher_def Buffer_alloc_def)

lemma neq_by_length: "length a \<noteq> length b \<Longrightarrow> (a = b) = False"
  by auto

lemma demo_digest:
  "digest demo_hasher 2 (Suc (Suc 0)) = replicate 32 0"
  "digest demo_hasher 2 (Suc 0) = replicate 32 1"
  "digest demo_hasher 2 0 = replicate 32 4"
proof -
  show 2: "digest demo_hasher 2 (Suc (Suc 0)) = replicate 32 0"
    by (subst digest.simps) (simp add: demo_hash)
  show 1: "digest demo_hasher 2 (Suc 0) = replicate 32 1"
    by (subst digest.simps) (simp add: 2 demo_compress)
  show "digest demo_hasher 2 0 = replicate 32 4"
    by (subst digest.simps) (simp add: 1 demo_compress)
qed

lemma upt_0_2: "[0..<2] = [0, Suc 0]"
  by (simp add: numeral_2_eq_2)

lemma demo_new: "new demo_hasher [] ''t'' 2 = Inr demo_tree"
  using new_fresh [of demo_hasher 2 "[]" "''t''"]
  by (simp add: digest32_demo db_get_def level_entries_def upt_0_2 demo_digest u32le_def
      Buffer_from_def demo_tree_def demo_db_def)

lemma demo_get [simp]:
  "db_get demo_db (replicate 32 4) = Some (replicate 32 1 @ replicate 32 1)"
  "db_get demo_db (replicate 32 1) = Some (replicate 32 0 @ replicate 32 0)"
  by (simp_all add: db_get_def demo_db_def neq_by_length)

lemma demo_update:
  "updateElement demo_hasher demo_tree 3 (replicate 64 1) = Some (Inr (replicate 32 8), demo_tree')"
  apply (simp add: updateElement_def demo_tree_def)
  apply (subst updateRecursively.simps, simp add: shouldGoRight_def)
  apply (subst updateRecursively.simps, simp add: shouldGoRight_def)
  apply (subst updateRecursively.simps, simp add: demo_hash demo_compress db_put_def Let_def)
  apply (simp add: writeMetaData_eq u32le_def demo_tree'_def buf_copy_same_length Buffer_from_def)
  done

text \<open>
  Claim C2. For a hasher with 32-byte digests, a depth \<open>D\<close> from 1 to 32 and a store
  with no entry under the name, \<open>new\<close> returns the tree whose root is \<open>digest[0]\<close>,
  where \<open>digest[D]\<close> is the hash of 64 zero bytes and \<open>digest[i]\<close> compresses
  \<open>digest[i+1]\<close> with itself. The store grows by exactly one node entry
  \<open>digest[i] \<mapsto> digest[i+1] || digest[i+1]\<close> for each level \<open>i < D\<close>, none for the
  leaf level, and then by the metadata record. The second variant of the class writes
  the same \<open>D\<close> node entries and returns the same tree; between the nodes and the
  final metadata record it writes one more metadata record, whose root field is zero.
\<close>

theorem fresh_construction:
  assumes "digest32 h" "1 \<le> D" "D \<le> 32" "db_get d (Buffer_from nm) = None"
  shows "new h d nm (int D) =
           Inr \<lparr>db = (Buffer_from nm, digest h D 0 @ u32le D @ [0, 0, 0, 0])
                      # map (\<lambda>i. (digest h D i, digest h D (Suc i) @ digest h D (Suc i))) [0..<D]
                      @ d,
                name = nm, depth = D, root = digest h D 0\<rparr>
         \<and> new2 h d nm (int D) =
           Inr \<lparr>db = (Buffer_from nm, digest h D 0 @ u32le D @ [0, 0, 0, 0])
                      # (Buffer_from nm, replicate 32 0 @ u32le D @ [0, 0, 0, 0])
                      # map (\<lambda>i. (digest h D i, digest h D (Suc i) @ digest h D (Suc i))) [0..<D]
                      @ d,
                name = nm, depth = D, root = digest h D 0\<rparr>
         \<and> digest h D D = hash h (replicate 64 0)
         \<and> (\<forall>i<D. digest h D i = compress h (digest h D (Suc i)) (digest h D (Suc i)))"
  using new_fresh [OF assms] new2_fresh [OF assms] digest_leaf [of h D] digest_inner [of _ D h]
  by (simp add: level_entries_def Buffer_alloc_def)

theorem fresh_construction_witness:
  "digest32 demo_hasher \<and> db_get [] (Buffer_from ''t'') = None
   \<and> new demo_hasher [] ''t'' 2 =
       Inr \<lparr>db = [([116], replicate 32 4 @ [2, 0, 0, 0, 0, 0, 0, 0]),
                  (replicate 32 4, replicate 32 1 @ replicate 32 1),
                  (replicate 32 1, replicate 32 0 @ replicate 32 0)],
            name = ''t'', depth = 2, root = replicate 32 4\<rparr>
   \<and> new2 demo_hasher [] ''t'' 2 =
       Inr \<lparr>db = [([116], replicate 32 4 @ [2, 0, 0, 0, 0, 0, 0, 0]),
                  ([116], replicate 32 0 @ [2, 0, 0, 0, 0, 0, 0, 0]),
                  (replicate 32 4, replicate 32 1 @ replicate 32 1),
                  (replicate 32 1, replicate 32 0 @ replicate 32 0)],
            name = ''t'', depth = 2, root = replicate 32 4\<rparr>"
  using fresh_construction [of demo_hasher 2 "[]" "''t''"]
  by (simp add: digest32_demo db_get_def upt_0_2 demo_digest u32le_def Buffer_from_def)

section \<open>Hash paths\<close>

lemma pair_from_0: "pair_from d D index cur lvl 0 = children_of d cur"
  by (simp add: pair_from_def)

lemma pair_from_Suc:
  "db_get d cur = Some v \<Longrightarrow>
   pair_from d D index cur lvl (Suc m) =
   pair_from d D index (if bit index (D - lvl - 1) then buf_slice v 32 64 else buf_slice v 0 32) (Suc lvl) m"
  by (simp add: pair_from_def)

lemma getHashPathRecursively_path:
  assumes "depth t = lvl + Suc n" "depth t \<le> 32"
    and "\<forall>m\<le>n. pair_from (db t) (depth t) index cur lvl m \<noteq> None"
  shows "\<exists>p. getHashPathRecursively t index cur lvl = Some (Inr p) \<and> length p = Suc n
           \<and> (\<forall>m\<le>n. pair_from (db t) (depth t) index cur lvl m = Some (p ! (n - m)))"
  using assms
proof (induction n arbitrary: cur lvl)
  case 0
  then obtain v where v: "db_get (db t) cur = Some v"
    by (auto simp: pair_from_0 children_of_def)
  show ?case using 0 v
    by (subst getHashPathRecursively.simps) (simp add: pair_from_0 children_of_def)
next
  case (Suc n)
  from Suc.prems(3) have "pair_from (db t) (depth t) index cur lvl 0 \<noteq> None" by blast
  then obtain v where v: "db_get (db t) cur = Some v"
    by (auto simp: pair_from_0 children_of_def)
  let ?l = "buf_slice v 0 32" and ?r = "buf_slice v 32 64"
  let ?k = "depth t - lvl - 1"
  have k32: "?k < 32" using Suc.prems by simp
  let ?next = "if bit index ?k then ?r else ?l"
  have nx: "\<forall>m\<le>n. pair_from (db t) (depth t) index ?next (Suc lvl) m \<noteq> None"
  proof (intro allI impI)
    fix m assume "m \<le> n"
    then have "pair_from (db t) (depth t) index cur lvl (Suc m) \<noteq> None" using Suc.prems(3) by simp
    then show "pair_from (db t) (depth t) index ?next (Suc lvl) m \<noteq> None"
      by (simp add: pair_from_Suc [OF v])
  qed
  obtain p where p: "getHashPathRecursively t index ?next (Suc lvl) = Some (Inr p)" "length p = Suc n"
      "\<forall>m\<le>n. pair_from (db t) (depth t) index ?next (Suc lvl) m = Some (p ! (n - m))"
    using Suc.IH [of "Suc lvl" ?next] Suc.prems(1,2) nx by auto
  have res: "getHashPathRecursively t index cur lvl = Some (Inr (p @ [(?l, ?r)]))"
    using v Suc.prems(1) p(1) k32
    by (subst getHashPathRecursively.simps) (simp add: shouldGoRight_bit)
  have "\<forall>m\<le>Suc n. pair_from (db t) (depth t) index cur lvl m = Some ((p @ [(?l, ?r)]) ! (Suc n - m))"
  proof (intro allI impI)
    fix m assume m: "m \<le> Suc n"
    show "pair_from (db t) (depth t) index cur lvl m = Some ((p @ [(?l, ?r)]) ! (Suc n - m))"
    proof (cases m)
      case 0
      then show ?thesis using v p(2) by (simp add: pair_from_0 children_of_def nth_append)
    next
      case (Suc m')
      then have "m' \<le> n" using m by simp
      then have "pair_from (db t) (depth t) index ?next (Suc lvl) m' = Some (p ! (n - m'))"
        using p(3) by blast
      moreover have "n - m' < Suc n" by simp
      ultimately show ?thesis using Suc p(2) by (simp add: pair_from_Suc [OF v] nth_append)
    qed
  qed
  then show ?case using res p(2) by simp
qed

section \<open>The second getHashPath\<close>

text \<open>For a depth of at least 1 the two variants of \<open>getHashPath\<close> agree.\<close>

lemma bind_map_push:
  "Option.bind (map_option (case_sum Inl (\<lambda>p. Inr (acc @ p))) x)
     (case_sum (\<lambda>e. Some (Inl e)) (\<lambda>hp. Some (Inr (hp @ [q]))))
   = map_option (case_sum Inl (\<lambda>p. Inr (acc @ p)))
       (Option.bind x (case_sum (\<lambda>e. Some (Inl e)) (\<lambda>a. Some (Inr (a @ [q])))))"
  by (cases x) (auto split: sum.splits)

lemma getHashPathRecursive_eq:
  assumes "depth t = lvl + Suc n"
  shows "getHashPathRecursive t index acc cur lvl =
           map_option (\<lambda>res. case res of Inl e \<Rightarrow> Inl e | Inr p \<Rightarrow> Inr (acc @ p)) (getHashPathRecursively t index cur lvl)"
  using assms
proof (induction n arbitrary: cur lvl)
  case 0
  have leaf: "getHashPathRecursive t index acc c (Suc lvl) = Some (Inr acc)" for c
    using 0 by (subst getHashPathRecursive.simps) (simp add: isLeaf_def)
  show ?case using 0
    apply (subst getHashPathRecursive.simps)
    apply (subst getHashPathRecursively.simps)
    apply (simp add: isLeaf_def leaf Let_def split: option.split)
    done
next
  case (Suc n)
  have ih: "getHashPathRecursive t index acc c (Suc lvl) =
           map_option (\<lambda>res. case res of Inl e \<Rightarrow> Inl e | Inr p \<Rightarrow> Inr (acc @ p)) (getHashPathRecursively t index c (Suc lvl))" for c
    using Suc.IH [of "Suc lvl" c] Suc.prems by simp
  show ?case using Suc.prems
    apply (subst getHashPathRecursive.simps)
    apply (subst getHashPathRecursively.simps)
    apply (auto simp add: isLeaf_def ih Let_def bind_map_push split: option.split)
    done
qed

lemma getHashPath2_eq:
  assumes "1 \<le> depth t"
  shows "getHashPath2 t index = getHashPath t index"
proof -
  from assms obtain n where "depth t = 0 + Suc n" by (cases "depth t") auto
  from getHashPathRecursive_eq [OF this, of index "[]" "root t"]
  show ?thesis
    by (cases "getHashPathRecursively t index (root t) 0")
       (auto simp: getHashPath2_def getHashPath_def split: sum.splits)
qed

text \<open>
  Claim C4. For a depth from 1 to 32 and an index whose route is present in the store,
  \<open>getHashPath\<close>, in both variants of the class, returns exactly \<open>depth\<close> pairs, and
  the pair at position \<open>depth - 1 - k\<close> is the pair of children of the node that the
  route visits at level \<open>k\<close>: the children of the root come last, those of the node
  next to the leaf first. The route starts at the root and goes right at level \<open>k\<close>
  exactly when bit \<open>depth - k - 1\<close> of the index is set.
\<close>

theorem getHashPath_leaf_to_root:
  assumes "1 \<le> depth t" "depth t \<le> 32"
    and "\<forall>k<depth t. pair_at t index k \<noteq> None"
  shows "\<exists>p. getHashPath t index = Some (Inr p, t) \<and> getHashPath2 t index = Some (Inr p, t)
           \<and> length p = depth t
           \<and> (\<forall>k<depth t. pair_at t index k = Some (p ! (depth t - 1 - k)))"
proof -
  obtain n where n: "depth t = 0 + Suc n" using assms(1) by (cases "depth t") auto
  have "\<forall>m\<le>n. pair_from (db t) (depth t) index (root t) 0 m \<noteq> None"
    using assms(3) n by (simp add: pair_at_def)
  then obtain p where "getHashPathRecursively t index (root t) 0 = Some (Inr p)" "length p = Suc n"
      "\<forall>m\<le>n. pair_from (db t) (depth t) index (root t) 0 m = Some (p ! (n - m))"
    using getHashPathRecursively_path [OF n assms(2), of index "root t"] by auto
  then show ?thesis using n getHashPath2_eq [OF assms(1), of index]
    by (auto simp: getHashPath_def pair_at_def)
qed

lemma demo_get' [simp]:
  "db_get (db demo_tree') (replicate 32 8) = Some (replicate 32 1 @ replicate 32 3)"
  "db_get (db demo_tree') (replicate 32 3) = Some (replicate 32 0 @ replicate 32 1)"
  "db_get (db demo_tree') (replicate 32 1) = Some (replicate 32 0 @ replicate 32 0)"
  by (simp_all add: db_get_def demo_tree'_def demo_db_def neq_by_length)

lemma demo_fields' [simp]:
  "depth demo_tree' = 2" "root demo_tree' = replicate 32 8" "name demo_tree' = ''t''"
  by (simp_all add: demo_tree'_def)

lemma demo_pair_at':
  "pair_at demo_tree' 3 0 = Some (replicate 32 1, replicate 32 3)"
  "pair_at demo_tree' 3 (Suc 0) = Some (replicate 32 0, replicate 32 1)"
  by (simp_all add: pair_at_def pair_from_def children_of_def)

theorem getHashPath_leaf_to_root_witness:
  "pair_at demo_tree' 3 0 \<noteq> None \<and> pair_at demo_tree' 3 1 \<noteq> None
   \<and> (\<exists>p. getHashPath demo_tree' 3 = Some (Inr p, demo_tree')
          \<and> getHashPath2 demo_tree' 3 = Some (Inr p, demo_tree') \<and> length p = 2
          \<and> p ! 1 = (replicate 32 1, replicate 32 3)
          \<and> p ! 0 = (replicate 32 0, replicate 32 1))"
proof -
  have d: "depth demo_tree' = 2" by simp
  have "\<forall>k<depth demo_tree'. pair_at demo_tree' 3 k \<noteq> None"
    unfolding d by (simp add: less_Suc_eq numeral_2_eq_2 demo_pair_at')
  from getHashPath_leaf_to_root [OF _ _ this] d
  obtain p where p: "getHashPath demo_tree' 3 = Some (Inr p, demo_tree')"
    "getHashPath2 demo_tree' 3 = Some (Inr p, demo_tree')" "length p = 2"
    "\<forall>k<2. pair_at demo_tree' 3 k = Some (p ! (2 - 1 - k))"
    by auto
  from p(4) have "pair_at demo_tree' 3 0 = Some (p ! 1)" "pair_at demo_tree' 3 (Suc 0) = Some (p ! 0)"
    by (simp_all add: numeral_2_eq_2)
  with p(1,2,3) show ?thesis by (auto simp: demo_pair_at')
qed

lemma getHashPathRecursively_returns:
  assumes "depth t = lvl + Suc n"
  shows "\<exists>res. getHashPathRecursively t index cur lvl = Some res"
  using assms
proof (induction n arbitrary: cur lvl)
  case 0
  then show ?case
    by (subst getHashPathRecursively.simps) (simp split: option.split)
next
  case (Suc n)
  show ?case
  proof (cases "db_get (db t) cur")
    case None
    then show ?thesis by (subst getHashPathRecursively.simps) simp
  next
    case (Some v)
    let ?next = "if shouldGoRight index (int (depth t) - int lvl - 1) then buf_slice v 32 64 else buf_slice v 0 32"
    obtain res where "getHashPathRecursively t index ?next (Suc lvl) = Some res"
      using Suc.IH [of "Suc lvl" ?next] Suc.prems by auto
    then show ?thesis using Some Suc.prems
      by (subst getHashPathRecursively.simps) (simp split: sum.split)
  qed
qed

lemma demo_fields [simp]:
  "depth demo_tree = 2" "root demo_tree = replicate 32 4" "name demo_tree = ''t''"
  "db demo_tree = demo_db"
  by (simp_all add: demo_tree_def)

lemma demo_pair_at:
  "pair_at demo_tree 3 0 = Some (replicate 32 1, replicate 32 1)"
  "pair_at demo_tree 3 (Suc 0) = Some (replicate 32 0, replicate 32 0)"
  by (simp_all add: pair_at_def pair_from_def children_of_def)

text \<open>
  Claim C9. \<open>getHashPath\<close> is read-only, in both variants of the class: whenever it
  returns, with a path or with an error, the object and its store are the ones it was
  called on; and for a depth of at least 1 it does return.
\<close>

theorem getHashPath_read_only:
  "(\<forall>res t'. getHashPath t index = Some (res, t') \<longrightarrow> t' = t)
   \<and> (\<forall>res t'. getHashPath2 t index = Some (res, t') \<longrightarrow> t' = t)
   \<and> (1 \<le> depth t \<longrightarrow>
        (\<exists>res. getHashPath t index = Some (res, t) \<and> getHashPath2 t index = Some (res, t)))"
proof -
  have "\<exists>res. getHashPath t index = Some (res, t) \<and> getHashPath2 t index = Some (res, t)"
    if "1 \<le> depth t"
  proof -
    from that obtain n where "depth t = 0 + Suc n" by (cases "depth t") auto
    from getHashPathRecursively_returns [OF this, of index "root t"] getHashPath2_eq [OF that, of index]
    show ?thesis by (auto simp: getHashPath_def)
  qed
  then show ?thesis by (auto simp: getHashPath_def getHashPath2_def)
qed

theorem getHashPath_read_only_witness:
  "1 \<le> depth demo_tree
   \<and> (\<exists>res. getHashPath demo_tree 3 = Some (res, demo_tree)
          \<and> getHashPath2 demo_tree 3 = Some (res, demo_tree))"
  using getHashPath_read_only [of demo_tree 3] by simp

section \<open>Updates\<close>

lemma writeMetaData_ok:
  assumes "depth t < 2 ^ 32"
  shows "\<exists>data. length data = 40 \<and>
           writeMetaData t = Inr (t\<lparr>db := (Buffer_from (name t), data) # db t\<rparr>)"
proof -
  let ?b = "buf_copy (root t) (Buffer_alloc 40) 0"
  let ?data = "take 32 ?b @ u32le (depth t) @ drop 36 ?b"
  have l: "length ?b = 40" by (simp add: Buffer_alloc_def)
  then have "length ?data = 40" by simp
  moreover have "writeMetaData t = Inr (t\<lparr>db := (Buffer_from (name t), ?data) # db t\<rparr>)"
    using assms l by (simp add: writeMetaData_def buf_writeUInt32LE_def db_put_def)
  ultimately show ?thesis by blast
qed

lemma updateRecursively_leaf:
  "updateRecursively h D index val d cur D = Some (Inr (hash h val), d)"
  by (subst updateRecursively.simps) simp

lemma updateRecursively_ok:
  assumes "D = lvl + n" "D \<le> 32"
    and "\<forall>m<n. pair_from d D index cur lvl m \<noteq> None"
  shows "\<exists>nd d'. updateRecursively h D index val d cur lvl = Some (Inr nd, d')"
  using assms
proof (induction n arbitrary: cur lvl)
  case 0
  then show ?case by (simp add: updateRecursively_leaf)
next
  case (Suc n)
  from Suc.prems(3) have "pair_from d D index cur lvl 0 \<noteq> None" by blast
  then obtain v where v: "db_get d cur = Some v"
    by (auto simp: pair_from_0 children_of_def)
  have k32: "D - lvl - 1 < 32" using Suc.prems by simp
  let ?next = "if bit index (D - lvl - 1) then buf_slice v 32 64 else buf_slice v 0 32"
  have "\<forall>m<n. pair_from d D index ?next (Suc lvl) m \<noteq> None"
  proof (intro allI impI)
    fix m assume "m < n"
    then have "pair_from d D index cur lvl (Suc m) \<noteq> None" using Suc.prems(3) by simp
    then show "pair_from d D index ?next (Suc lvl) m \<noteq> None"
      by (simp add: pair_from_Suc [OF v])
  qed
  then obtain nd d' where r: "updateRecursively h D index val d ?next (Suc lvl) = Some (Inr nd, d')"
    using Suc.IH [of "Suc lvl" ?next] Suc.prems(1,2) by auto
  show ?case
  proof (cases "bit index (D - lvl - 1)")
    case True
    with r v k32 Suc.prems(1) show ?thesis
      by (subst updateRecursively.simps) (simp add: shouldGoRight_bit Let_def)
  next
    case False
    with r v k32 Suc.prems(1) show ?thesis
      by (subst updateRecursively.simps) (simp add: shouldGoRight_bit Let_def)
  qed
qed

section \<open>Restoration after updates\<close>

lemma MerkleTree_fields:
  assumes "MerkleTree h d nm dep rt = Inr t"
  shows "name t = nm \<and> 1 \<le> depth t \<and> depth t \<le> 32 \<and> length (root t) = 32"
  using assms
  by (auto simp: MerkleTree_def MAX_DEPTH_def Buffer_alloc_def split: if_splits option.splits sum.splits)

lemma new_restorable:
  assumes "db_get d (Buffer_from nm) = None" "new h d nm dep = Inr t"
  shows "restorable t \<and> name t = nm"
proof -
  from assms obtain t1 where t1: "MerkleTree h d nm dep None = Inr t1" "writeMetaData t1 = Inr t"
    by (auto simp: new_def split: sum.splits)
  note f = MerkleTree_fields [OF t1(1)]
  then have "depth t1 < 2 ^ 32" by simp
  with f t1(2) have "t = t1\<lparr>db := (Buffer_from (name t1), root t1 @ u32le (depth t1) @ [0, 0, 0, 0]) # db t1\<rparr>"
    by (simp add: writeMetaData_eq)
  with f show ?thesis by (simp add: restorable_def db_get_def)
qed

lemma updateElement_restorable:
  assumes "restorable t" "updateElement h t index val = Some (Inr r, t')"
  shows "restorable t' \<and> name t' = name t \<and> depth t' = depth t \<and> r = root t'"
proof -
  from assms(2) obtain nd d' where
    u: "updateRecursively h (depth t) index val (db t) (root t) 0 = Some (Inr nd, d')"
    and w: "writeMetaData (t\<lparr>db := d', root := buf_copy nd (root t) 0\<rparr>) = Inr t'" and r: "r = root t'"
    by (auto simp: updateElement_def Let_def split: option.splits sum.splits prod.splits)
  let ?t1 = "t\<lparr>db := d', root := buf_copy nd (root t) 0\<rparr>"
  have "length (root ?t1) = 32" "depth ?t1 < 2 ^ 32" using assms(1) by (simp_all add: restorable_def)
  from writeMetaData_eq [OF this] w
  have "t' = ?t1\<lparr>db := (Buffer_from (name ?t1), root ?t1 @ u32le (depth ?t1) @ [0, 0, 0, 0]) # db ?t1\<rparr>"
    by simp
  then show ?thesis using assms(1) r by (simp add: restorable_def db_get_def)
qed

lemma run_updates_restorable:
  assumes "restorable t0" "run_updates h t0 us = Some t"
  shows "restorable t \<and> name t = name t0 \<and> depth t = depth t0"
  using assms
proof (induction us arbitrary: t0)
  case Nil
  then show ?case by simp
next
  case (Cons u us)
  from Cons.prems(2) obtain r t1 where
    1: "updateElement h t0 (fst u) (snd u) = Some (Inr r, t1)" "run_updates h t1 us = Some t"
    by (auto split: option.splits sum.splits prod.splits)
  from updateElement_restorable [OF Cons.prems(1) 1(1)] Cons.IH [of t1] 1(2)
  show ?case by simp
qed

lemma new_restores:
  assumes "restorable t"
  shows "new h (db t) (name t) dep = Inr t"
proof -
  let ?meta = "root t @ u32le (depth t) @ [0, 0, 0, 0]"
  from assms have g: "db_get (db t) (Buffer_from (name t)) = Some ?meta"
    and l: "length (root t) = 32" and d: "1 \<le> depth t" "depth t \<le> 32"
    by (simp_all add: restorable_def)
  have "depth t < 2 ^ 32" using d by simp
  from readUInt32LE_written [OF l this] have r: "buf_readUInt32LE ?meta 32 = Inr (depth t)" .
  show ?thesis using g r l d
    by (simp add: new_def MerkleTree_def MAX_DEPTH_def)
qed

text \<open>
  Claim C3. Start from a store with no entry under the name, build the tree with
  \<open>new\<close> and perform any sequence of updates that succeed. Then the store holds
  under the name the 40-byte record made of the 32-byte root, the depth as four
  little-endian bytes and four zero bytes, and \<open>new\<close> on that store and name returns,
  for any depth argument, the very object the updates left: same store, name, depth and
  root, hence the same \<open>getRoot\<close> and the same \<open>getHashPath\<close> for every index.
\<close>

theorem restoration_round_trip:
  assumes "db_get d (Buffer_from nm) = None" "new h d nm dep = Inr t0"
    and "run_updates h t0 us = Some t"
  shows "db_get (db t) (Buffer_from nm) = Some (getRoot t @ u32le (depth t) @ [0, 0, 0, 0])
         \<and> length (getRoot t) = 32 \<and> depth t = nat dep
         \<and> (\<exists>t2. new h (db t) nm dep' = Inr t2 \<and> t2 = t \<and> getRoot t2 = getRoot t
                \<and> (\<forall>index. getHashPath t2 index = getHashPath t index))"
proof -
  from new_restorable [OF assms(1,2)] have 0: "restorable t0" "name t0 = nm" by simp_all
  from run_updates_restorable [OF 0(1) assms(3)] 0(2)
  have 1: "restorable t" "name t = nm" "depth t = depth t0" by simp_all
  have "depth t0 = nat dep" using assms(1,2)
    by (auto simp: new_def MerkleTree_def writeMetaData_def db_put_def
        split: sum.splits if_splits option.splits prod.splits)
  with 1 new_restores [OF 1(1), of h dep'] show ?thesis
    by (simp add: restorable_def getRoot_def)
qed

theorem restoration_round_trip_witness:
  "db_get [] (Buffer_from ''t'') = None \<and> new demo_hasher [] ''t'' 2 = Inr demo_tree
   \<and> run_updates demo_hasher demo_tree [(3, replicate 64 1)] = Some demo_tree'
   \<and> new demo_hasher (db demo_tree') ''t'' 32 = Inr demo_tree'
   \<and> db_get (db demo_tree') (Buffer_from ''t'') = Some (replicate 32 8 @ [2, 0, 0, 0, 0, 0, 0, 0])"
proof -
  have a: "db_get [] (Buffer_from ''t'') = None" by (simp add: db_get_def)
  have b: "run_updates demo_hasher demo_tree [(3, replicate 64 1)] = Some demo_tree'"
    by (simp add: demo_update)
  from restoration_round_trip [OF a demo_new b, of 32] a b demo_new
  show ?thesis by (simp add: getRoot_def u32le_def)
qed

section \<open>The store under updates\<close>

lemma write_once_iff:
  "write_once d \<longleftrightarrow>
     (\<forall>k v v'. (k, v) \<in> set d \<and> (k, v') \<in> set d \<and> length v = 64 \<longrightarrow> v' = v)"
  by (fastforce simp: write_once_def list_all_iff)

lemma write_once_get:
  assumes "write_once d" "(k, v) \<in> set d" "length v = 64"
  shows "db_get d k = Some v"
proof -
  from assms(2) have "k \<in> fst ` set d" by force
  then obtain v' where v': "map_of d k = Some v'"
    by (cases "map_of d k") (auto simp: map_of_eq_None_iff)
  then have "(k, v') \<in> set d" by (rule map_of_SomeD)
  with assms have "v' = v" by (auto simp: write_once_iff)
  with v' show ?thesis by (simp add: db_get_def)
qed

lemma write_once_stable:
  assumes "write_once d'" "set d \<subseteq> set d'" "db_get d k = Some v" "length v = 64"
  shows "db_get d' k = Some v"
proof -
  from assms(3) have "(k, v) \<in> set d" by (auto simp: db_get_def dest: map_of_SomeD)
  with assms(2) have "(k, v) \<in> set d'" by blast
  from write_once_get [OF assms(1) this assms(4)] show ?thesis .
qed

lemma write_once_subset:
  "write_once d' \<Longrightarrow> set d \<subseteq> set d' \<Longrightarrow> write_once d"
  unfolding write_once_iff by blast

text \<open>One level of the update, read backwards from its result.\<close>

lemma updateRecursively_step:
  assumes "lvl < D" "D \<le> 32" "db_get d cur = Some v"
    and "updateRecursively h D index val d cur lvl = Some (Inr nd, d1)"
  shows "\<exists>nc d2.
           updateRecursively h D index val d
             (if bit index (D - lvl - 1) then buf_slice v 32 64 else buf_slice v 0 32) (Suc lvl)
             = Some (Inr nc, d2)
           \<and> nd = compress h (if bit index (D - lvl - 1) then buf_slice v 0 32 else nc)
                             (if bit index (D - lvl - 1) then nc else buf_slice v 32 64)
           \<and> d1 = (nd, buf_copy (if bit index (D - lvl - 1) then nc else buf_slice v 32 64)
                         (buf_copy (if bit index (D - lvl - 1) then buf_slice v 0 32 else nc)
                            (Buffer_alloc 64) 0) 32) # d2"
proof -
  have k32: "D - lvl - 1 < 32" using assms(1,2) by simp
  have ne: "D \<noteq> lvl" using assms(1) by simp
  have "int D - int lvl - 1 = int (D - lvl - 1)" using assms(1) by simp
  then have sg: "shouldGoRight index (int D - int lvl - 1) = bit index (D - lvl - 1)"
    using shouldGoRight_nat [OF k32, of index] by simp
  show ?thesis
  proof (cases "bit index (D - lvl - 1)")
    case True
    from assms(4) show ?thesis
      apply (subst (asm) updateRecursively.simps)
      using True ne assms(3)
      apply (auto simp add: sg Let_def db_put_def split: Option.bind_splits sum.splits prod.splits)
      done
  next
    case False
    from assms(4) show ?thesis
      apply (subst (asm) updateRecursively.simps)
      using False ne assms(3)
      apply (auto simp add: sg Let_def db_put_def split: Option.bind_splits sum.splits prod.splits)
      done
  qed
qed

lemma updateRecursively_grows:
  assumes "D = lvl + n" "updateRecursively h D index val d cur lvl = Some (res, d1)"
  shows "\<exists>ws. d1 = ws @ d"
  using assms
proof (induction n arbitrary: cur lvl res d1)
  case 0
  then show ?case by (simp add: updateRecursively_leaf)
next
  case (Suc n)
  have ne: "D \<noteq> lvl" using Suc.prems(1) by simp
  show ?case
  proof (cases "db_get d cur")
    case None
    with Suc.prems(2) ne show ?thesis
      by (subst (asm) updateRecursively.simps) simp
  next
    case (Some v)
    let ?c = "if shouldGoRight index (int D - int lvl - 1) then buf_slice v 32 64 else buf_slice v 0 32"
    from Suc.prems(2) Some ne have
      "\<exists>res2 d2. updateRecursively h D index val d ?c (Suc lvl) = Some (res2, d2)
          \<and> (d1 = d2 \<or> (\<exists>e. d1 = e # d2))"
      apply (subst (asm) updateRecursively.simps)
      apply (auto simp: Let_def db_put_def split: Option.bind_splits sum.splits prod.splits if_splits)
      done
    then obtain res2 d2 where
      r: "updateRecursively h D index val d ?c (Suc lvl) = Some (res2, d2)"
      and e: "d1 = d2 \<or> (\<exists>e. d1 = e # d2)"
      by blast
    from Suc.IH [of "Suc lvl" ?c res2 d2] Suc.prems(1) r obtain ws where "d2 = ws @ d" by auto
    with e show ?thesis by (metis append_Cons)
  qed
qed

lemma updateRecursively_digest32:
  assumes "digest32 h" "lvl \<le> D" "updateRecursively h D index val d cur lvl = Some (Inr nd, d1)"
  shows "length nd = 32"
proof (cases "D = lvl")
  case True
  with assms show ?thesis by (auto simp add: updateRecursively_leaf digest32_def)
next
  case False
  from assms(3) False assms(1) show ?thesis
    apply (subst (asm) updateRecursively.simps)
    apply (auto simp: Let_def digest32_def split: Option.bind_splits sum.splits prod.splits if_splits option.splits)
    done
qed

section \<open>The path of an updated leaf\<close>

lemma recompute_snoc:
  "recompute h index j (ps @ [p]) cur =
     (case recompute h index j ps cur of
        None \<Rightarrow> None
      | Some c \<Rightarrow> recompute h index (j + length ps) [p] c)"
  by (induction ps arbitrary: j cur) (auto split: option.splits)

lemma node_buffer:
  assumes "length l = 32" "length r = 32"
  shows "buf_copy r (buf_copy l (Buffer_alloc 64) 0) 32 = l @ r"
  using assms by simp

lemma updateRecursively_path:
  assumes "digest32 h" "D = lvl + Suc n" "D \<le> 32" "full_tree d cur (Suc n)"
    and "updateRecursively h D index val d cur lvl = Some (Inr nd, d1)"
    and "depth t' = D" "set d1 \<subseteq> set (db t')" "write_once (db t')"
  shows "\<exists>p. getHashPathRecursively t' index nd lvl = Some (Inr p) \<and> length p = Suc n
           \<and> recompute h index 0 p (hash h val) = Some nd"
  using assms(2,4,5,7)
proof (induction n arbitrary: cur lvl nd d1)
  case 0
  from "0.prems"(2) obtain v where v: "db_get d cur = Some v" "length v = 64"
    by (auto split: option.splits)
  let ?b = "bit index (D - lvl - 1)"
  from updateRecursively_step [OF _ assms(3) v(1) "0.prems"(3)] "0.prems"(1)
  obtain nc d2 where
    s: "updateRecursively h D index val d (if ?b then buf_slice v 32 64 else buf_slice v 0 32) (Suc lvl)
          = Some (Inr nc, d2)"
      "nd = compress h (if ?b then buf_slice v 0 32 else nc) (if ?b then nc else buf_slice v 32 64)"
      "d1 = (nd, buf_copy (if ?b then nc else buf_slice v 32 64)
                   (buf_copy (if ?b then buf_slice v 0 32 else nc) (Buffer_alloc 64) 0) 32) # d2"
    by auto
  have nc: "nc = hash h val" using s(1) "0.prems"(1) by (simp add: updateRecursively_leaf)
  let ?l = "if ?b then buf_slice v 0 32 else nc" and ?r = "if ?b then nc else buf_slice v 32 64"
  have len: "length ?l = 32" "length ?r = 32"
    using v(2) nc assms(1) by (auto simp: digest32_def buf_slice_def)
  have "(nd, ?l @ ?r) \<in> set (db t')"
    using s(3) "0.prems"(4) node_buffer [OF len] by auto
  from write_once_get [OF assms(8) this] len
  have g: "db_get (db t') nd = Some (?l @ ?r)" by simp
  have b0: "D - lvl - 1 = 0" using "0.prems"(1) by simp
  have "getHashPathRecursively t' index nd lvl = Some (Inr [(?l, ?r)])"
    using g len assms(6) "0.prems"(1)
    by (subst getHashPathRecursively.simps) (simp del: if_split cong: if_cong)
  moreover have "recompute h index 0 [(?l, ?r)] (hash h val) = Some nd"
    using s(2) nc b0 by simp
  ultimately show ?case by simp
next
  case (Suc n)
  from Suc.prems(2) obtain v where v: "db_get d cur = Some v" "length v = 64"
      and fl: "full_tree d (buf_slice v 0 32) (Suc n)" and fr: "full_tree d (buf_slice v 32 64) (Suc n)"
    by (auto split: option.splits)
  let ?b = "bit index (D - lvl - 1)"
  let ?c = "if ?b then buf_slice v 32 64 else buf_slice v 0 32"
  from updateRecursively_step [OF _ assms(3) v(1) Suc.prems(3)] Suc.prems(1)
  obtain nc d2 where
    s: "updateRecursively h D index val d ?c (Suc lvl) = Some (Inr nc, d2)"
      "nd = compress h (if ?b then buf_slice v 0 32 else nc) (if ?b then nc else buf_slice v 32 64)"
      "d1 = (nd, buf_copy (if ?b then nc else buf_slice v 32 64)
                   (buf_copy (if ?b then buf_slice v 0 32 else nc) (Buffer_alloc 64) 0) 32) # d2"
    by auto
  have lnc: "length nc = 32"
    using updateRecursively_digest32 [OF assms(1) _ s(1)] Suc.prems(1) by simp
  let ?l = "if ?b then buf_slice v 0 32 else nc" and ?r = "if ?b then nc else buf_slice v 32 64"
  have len: "length ?l = 32" "length ?r = 32"
    using v(2) lnc by (auto simp: buf_slice_def)
  have "(nd, ?l @ ?r) \<in> set (db t')"
    using s(3) Suc.prems(4) node_buffer [OF len] by auto
  from write_once_get [OF assms(8) this] len
  have g: "db_get (db t') nd = Some (?l @ ?r)" by simp
  have fc: "full_tree d ?c (Suc n)" using fl fr by simp
  have sub: "set d2 \<subseteq> set (db t')" using s(3) Suc.prems(4) by auto
  from Suc.IH [of "Suc lvl" ?c nc d2] Suc.prems(1) fc s(1) sub
  obtain p where p: "getHashPathRecursively t' index nc (Suc lvl) = Some (Inr p)" "length p = Suc n"
     "recompute h index 0 p (hash h val) = Some nc"
    by auto
  have k32: "D - lvl - 1 < 32" using assms(3) by simp
  have bn: "D - lvl - 1 = Suc n" using Suc.prems(1) by simp
  have nxt: "(if ?b then ?r else ?l) = nc" by simp
  have "getHashPathRecursively t' index nd lvl = Some (Inr (p @ [(?l, ?r)]))"
    apply (subst getHashPathRecursively.simps)
    using g len assms(6) Suc.prems(1) k32 p(1) nxt
    apply (simp add: shouldGoRight_bit del: if_split cong: if_cong)
    done
  moreover have "recompute h index 0 (p @ [(?l, ?r)]) (hash h val) = Some nd"
    using p(2,3) s(2) bn by (simp add: recompute_snoc)
  ultimately show ?case using p(2) by simp
qed

lemma demo_full: "fully_constructed demo_tree"
  by (simp add: fully_constructed_def numeral_2_eq_2)

lemma demo_write_once: "write_once (db demo_tree')"
  by (simp add: write_once_def demo_tree'_def demo_db_def neq_by_length)

text \<open>
  Claim C1. Take a hasher with 32-byte digests and a fully constructed tree, of a depth
  from 1 to 32, and let \<open>updateElement index value\<close> succeed. Provided the store's
  history shows no node entry overwritten by different content (no digest collision,
  the name not a digest), \<open>getHashPath index\<close> on the updated tree returns \<open>depth\<close>
  pairs, and walking up from \<open>hash value\<close>, checking at each pair the slot that the
  index bit selects and compressing the pair, ends in \<open>getRoot\<close>, which is the root
  that the update returned. The index may be any integer: below level 32 the
  JavaScript shift reads its bits as they are.
\<close>

theorem update_then_path_recomputes_root:
  assumes "digest32 h" "fully_constructed t"
    and "updateElement h t index val = Some (Inr r, t')"
    and "write_once (db t')"
  shows "getRoot t' = r
         \<and> (\<exists>p. getHashPath t' index = Some (Inr p, t') \<and> length p = depth t
                \<and> recompute h index 0 p (hash h val) = Some (getRoot t'))"
proof -
  from assms(2) have d: "1 \<le> depth t" "depth t \<le> 32" and lr: "length (root t) = 32"
    and f: "full_tree (db t) (root t) (depth t)"
    by (simp_all add: fully_constructed_def)
  from d(1) obtain n where n: "depth t = 0 + Suc n" by (cases "depth t") auto
  from assms(3) obtain nd d1 where
    u: "updateRecursively h (depth t) index val (db t) (root t) 0 = Some (Inr nd, d1)"
    and w: "writeMetaData (t\<lparr>db := d1, root := buf_copy nd (root t) 0\<rparr>) = Inr t'"
    and r: "r = root t'"
    by (auto simp: updateElement_def Let_def split: option.splits sum.splits prod.splits)
  have lnd: "length nd = 32" using updateRecursively_digest32 [OF assms(1) _ u] by simp
  then have rt: "buf_copy nd (root t) 0 = nd" using lr by (simp add: buf_copy_same_length)
  let ?t1 = "t\<lparr>db := d1, root := nd\<rparr>"
  have "length (root ?t1) = 32" "depth ?t1 < 2 ^ 32" using lnd d(2) by simp_all
  from writeMetaData_eq [OF this] w rt
  have t': "t' = ?t1\<lparr>db := (Buffer_from (name ?t1), root ?t1 @ u32le (depth ?t1) @ [0, 0, 0, 0]) # db ?t1\<rparr>"
    by simp
  then have 1: "depth t' = depth t" "root t' = nd" "set d1 \<subseteq> set (db t')" by auto
  from f n have f': "full_tree (db t) (root t) (Suc n)" by simp
  from updateRecursively_path [OF assms(1) n d(2) f' u 1(1) 1(3) assms(4)]
  obtain p where "getHashPathRecursively t' index nd 0 = Some (Inr p)" "length p = Suc n"
    "recompute h index 0 p (hash h val) = Some nd" by blast
  with 1 r n show ?thesis by (simp add: getHashPath_def getRoot_def)
qed

theorem update_then_path_recomputes_root_witness:
  "digest32 demo_hasher \<and> fully_constructed demo_tree
   \<and> updateElement demo_hasher demo_tree 3 (replicate 64 1) = Some (Inr (replicate 32 8), demo_tree')
   \<and> write_once (db demo_tree')
   \<and> (\<exists>p. getHashPath demo_tree' 3 = Some (Inr p, demo_tree') \<and> length p = 2
          \<and> recompute demo_hasher 3 0 p (replicate 32 1) = Some (replicate 32 8))"
  using update_then_path_recomputes_root [OF digest32_demo demo_full demo_update demo_write_once]
    digest32_demo demo_full demo_update demo_write_once
  by (simp add: getRoot_def demo_hash)

section \<open>Values of any length\<close>

text \<open>
  What an update writes, on a full tree and for a value of any length: one node entry
  per level, the root's first, which chain from \<open>hash value\<close> up to the new root.
\<close>

lemma updateRecursively_chain:
  assumes "digest32 h" "D \<le> 32" "D = lvl + n" "full_tree d cur n"
    and "updateRecursively h D index val d cur lvl = Some (Inr nd, d1)"
  shows "\<exists>p. length p = n
           \<and> d1 = map (\<lambda>q. (compress h (fst q) (snd q), fst q @ snd q)) (rev p) @ d
           \<and> recompute h index 0 p (hash h val) = Some nd"
  using assms(3-5)
proof (induction n arbitrary: cur lvl nd d1)
  case 0
  then show ?case by (simp add: updateRecursively_leaf)
next
  case (Suc n)
  from Suc.prems(2) obtain v where v: "db_get d cur = Some v" "length v = 64"
    and fl: "full_tree d (buf_slice v 0 32) n" and fr: "full_tree d (buf_slice v 32 64) n"
    by (auto split: option.splits)
  let ?b = "bit index (D - lvl - 1)"
  let ?c = "if ?b then buf_slice v 32 64 else buf_slice v 0 32"
  from updateRecursively_step [OF _ assms(2) v(1) Suc.prems(3)] Suc.prems(1)
  obtain nc d2 where
    s: "updateRecursively h D index val d ?c (Suc lvl) = Some (Inr nc, d2)"
      "nd = compress h (if ?b then buf_slice v 0 32 else nc) (if ?b then nc else buf_slice v 32 64)"
      "d1 = (nd, buf_copy (if ?b then nc else buf_slice v 32 64)
                   (buf_copy (if ?b then buf_slice v 0 32 else nc) (Buffer_alloc 64) 0) 32) # d2"
    by auto
  have lnc: "length nc = 32"
    using updateRecursively_digest32 [OF assms(1) _ s(1)] Suc.prems(1) by simp
  define l where "l = (if ?b then buf_slice v 0 32 else nc)"
  define r where "r = (if ?b then nc else buf_slice v 32 64)"
  have len: "length l = 32" "length r = 32" using v(2) lnc by (auto simp: l_def r_def buf_slice_def)
  have d1: "d1 = (compress h l r, l @ r) # d2" and nd: "nd = compress h l r"
    using s(2,3) node_buffer [OF len] by (simp_all add: l_def r_def)
  have sel: "(if bit index n then r else l) = nc"
    using Suc.prems(1) by (simp add: l_def r_def)
  have fc: "full_tree d ?c n" using fl fr by simp
  from Suc.IH [of "Suc lvl" ?c nc d2] Suc.prems(1) fc s(1)
  obtain p where p: "length p = n"
    "d2 = map (\<lambda>q. (compress h (fst q) (snd q), fst q @ snd q)) (rev p) @ d"
    "recompute h index 0 p (hash h val) = Some nc" by auto
  let ?p = "p @ [(l, r)]"
  have "length ?p = Suc n" using p(1) by simp
  moreover have "d1 = map (\<lambda>q. (compress h (fst q) (snd q), fst q @ snd q)) (rev ?p) @ d"
    using d1 p(2) by simp
  moreover have "recompute h index 0 ?p (hash h val) = Some nd"
    using p(1,3) sel nd by (auto simp add: recompute_snoc split: if_splits)
  ultimately show ?case by blast
qed

lemma updateRecursively_leaf_digest:
  assumes "digest32 h" "D \<le> 32" "write_once d'" "D = lvl + n" "full_tree d cur n"
    and "updateRecursively h D index val d cur lvl = Some (Inr nd, d1)"
    and "set d1 \<subseteq> set d'"
  shows "descend d' D index nd lvl n = Some (hash h val)"
  using assms(4-7)
proof (induction n arbitrary: cur lvl nd d1)
  case 0
  then show ?case by (simp add: updateRecursively_leaf)
next
  case (Suc n)
  from Suc.prems(2) obtain v where v: "db_get d cur = Some v" "length v = 64"
    and fl: "full_tree d (buf_slice v 0 32) n" and fr: "full_tree d (buf_slice v 32 64) n"
    by (auto split: option.splits)
  let ?b = "bit index (D - lvl - 1)"
  let ?c = "if ?b then buf_slice v 32 64 else buf_slice v 0 32"
  from updateRecursively_step [OF _ assms(2) v(1) Suc.prems(3)] Suc.prems(1)
  obtain nc d2 where
    s: "updateRecursively h D index val d ?c (Suc lvl) = Some (Inr nc, d2)"
      "d1 = (nd, buf_copy (if ?b then nc else buf_slice v 32 64)
                   (buf_copy (if ?b then buf_slice v 0 32 else nc) (Buffer_alloc 64) 0) 32) # d2"
    by auto
  have lnc: "length nc = 32"
    using updateRecursively_digest32 [OF assms(1) _ s(1)] Suc.prems(1) by simp
  define l where "l = (if ?b then buf_slice v 0 32 else nc)"
  define r where "r = (if ?b then nc else buf_slice v 32 64)"
  have len: "length l = 32" "length r = 32" using v(2) lnc by (auto simp: l_def r_def buf_slice_def)
  have "(nd, l @ r) \<in> set d'" using s(2) Suc.prems(4) node_buffer [OF len] by (auto simp: l_def r_def)
  from write_once_get [OF assms(3) this] len have g: "db_get d' nd = Some (l @ r)" by simp
  have sel: "(if ?b then r else l) = nc" by (simp add: l_def r_def)
  have fc: "full_tree d ?c n" using fl fr by simp
  have sub2: "set d2 \<subseteq> set d'" using s(2) Suc.prems(4) by auto
  from Suc.IH [of "Suc lvl" ?c nc d2] Suc.prems(1) fc s(1) sub2
  have "descend d' D index nc (Suc lvl) n = Some (hash h val)" by simp
  then show ?case using g len sel by (simp del: if_split cong: if_cong)
qed


lemma recompute_first:
  assumes "recompute h index 0 p c = Some r" "p \<noteq> []"
  shows "(if bit index 0 then snd (p ! 0) else fst (p ! 0)) = c"
  using assms by (cases p) (auto split: if_splits)

lemma demo_hash_long: "hash demo_hasher (replicate 100 x) = replicate 32 x"
  by (simp add: demo_hasher_def)

lemma demo_update_long:
  "updateElement demo_hasher demo_tree 3 (replicate 100 1) = Some (Inr (replicate 32 8), demo_tree')"
  apply (simp add: updateElement_def demo_tree_def)
  apply (subst updateRecursively.simps, simp add: shouldGoRight_def)
  apply (subst updateRecursively.simps, simp add: shouldGoRight_def)
  apply (subst updateRecursively.simps, simp add: demo_hash_long demo_compress db_put_def Let_def)
  apply (simp add: writeMetaData_eq u32le_def demo_tree'_def buf_copy_same_length Buffer_from_def)
  done

text \<open>
  Claim C10. No branch of the update looks at the length of the value. For a depth from
  1 to 32 and an index whose route is present in the store, \<open>updateElement\<close> succeeds
  for every value, of whatever length. On a fully constructed tree, with 32-byte digests,
  the outcome is the new root, and the store afterwards is the store before with one node
  entry per level and the metadata record on top; the entries are the pairs of a hash path
  whose first pair holds \<open>hash value\<close> in the slot of the index and which recomputes from
  \<open>hash value\<close> to the new root. When no node entry was overwritten by different
  content, the route of the index in the updated tree ends at the leaf digest
  \<open>hash value\<close>. At the leaf level the helper returns \<open>hash value\<close> without reading
  the store.
\<close>

theorem updateElement_any_length:
  assumes "1 \<le> depth t" "depth t \<le> 32"
    and "\<forall>k<depth t. pair_at t index k \<noteq> None"
  shows "(\<exists>r t'. updateElement h t index val = Some (Inr r, t')
           \<and> (digest32 h \<and> fully_constructed t \<longrightarrow>
                r = getRoot t' \<and> depth t' = depth t \<and> name t' = name t
                \<and> (\<exists>p. length p = depth t
                     \<and> db t' = (Buffer_from (name t), r @ u32le (depth t) @ [0, 0, 0, 0])
                          # map (\<lambda>q. (compress h (fst q) (snd q), fst q @ snd q)) (rev p) @ db t
                     \<and> (if bit index 0 then snd (p ! 0) else fst (p ! 0)) = hash h val
                     \<and> recompute h index 0 p (hash h val) = Some r)
                \<and> (write_once (db t') \<longrightarrow> node_at t' index (depth t) = Some (hash h val))))
         \<and> updateRecursively h (depth t) index val d cur (depth t) = Some (Inr (hash h val), d)"
proof -
  have "\<forall>m<depth t. pair_from (db t) (depth t) index (root t) 0 m \<noteq> None"
    using assms(3) by (simp add: pair_at_def)
  then obtain nd d1 where
    u: "updateRecursively h (depth t) index val (db t) (root t) 0 = Some (Inr nd, d1)"
    using updateRecursively_ok [of "depth t" 0 "depth t" "db t" index "root t" h val] assms(2)
    by auto
  let ?t0 = "t\<lparr>db := d1, root := buf_copy nd (root t) 0\<rparr>"
  have "depth ?t0 < 2 ^ 32" using assms(2) by simp
  from writeMetaData_ok [OF this] obtain t2 where w: "writeMetaData ?t0 = Inr t2" by blast
  with u have ue: "updateElement h t index val = Some (Inr (root t2), t2)"
    by (simp add: updateElement_def)
  have "r = getRoot t2 \<and> depth t2 = depth t \<and> name t2 = name t
        \<and> (\<exists>p. length p = depth t
             \<and> db t2 = (Buffer_from (name t), r @ u32le (depth t) @ [0, 0, 0, 0])
                  # map (\<lambda>q. (compress h (fst q) (snd q), fst q @ snd q)) (rev p) @ db t
             \<and> (if bit index 0 then snd (p ! 0) else fst (p ! 0)) = hash h val
             \<and> recompute h index 0 p (hash h val) = Some r)
        \<and> (write_once (db t2) \<longrightarrow> node_at t2 index (depth t) = Some (hash h val))"
    if dg: "digest32 h" and fc: "fully_constructed t" and r: "r = root t2" for r
  proof -
    from fc have lr: "length (root t) = 32" and f: "full_tree (db t) (root t) (depth t)"
      by (simp_all add: fully_constructed_def)
    have lnd: "length nd = 32" using updateRecursively_digest32 [OF dg _ u] by simp
    then have rt: "buf_copy nd (root t) 0 = nd" using lr by (simp add: buf_copy_same_length)
    let ?t1 = "t\<lparr>db := d1, root := nd\<rparr>"
    have "length (root ?t1) = 32" "depth ?t1 < 2 ^ 32" using lnd assms(2) by simp_all
    from writeMetaData_eq [OF this] w rt
    have t2: "t2 = ?t1\<lparr>db := (Buffer_from (name ?t1), root ?t1 @ u32le (depth ?t1) @ [0, 0, 0, 0]) # db ?t1\<rparr>"
      by simp
    then have 1: "depth t2 = depth t" "root t2 = nd" "name t2 = name t"
      "db t2 = (Buffer_from (name t), nd @ u32le (depth t) @ [0, 0, 0, 0]) # d1" by auto
    then have sub: "set d1 \<subseteq> set (db t2)" by auto
    from updateRecursively_chain [OF dg assms(2) _ f u]
    obtain p where p: "length p = depth t"
      "d1 = map (\<lambda>q. (compress h (fst q) (snd q), fst q @ snd q)) (rev p) @ db t"
      "recompute h index 0 p (hash h val) = Some nd" by auto
    from p(1) assms(1) have "p \<noteq> []" by auto
    from recompute_first [OF p(3) this]
    have lf: "(if bit index 0 then snd (p ! 0) else fst (p ! 0)) = hash h val" .
    have nodeat: "node_at t2 index (depth t) = Some (hash h val)" if wo: "write_once (db t2)"
      using updateRecursively_leaf_digest [OF dg assms(2) wo _ f u sub] 1(1,2)
      by (simp add: node_at_def)
    show ?thesis using 1 p lf nodeat r by (auto simp: getRoot_def)
  qed
  with ue show ?thesis by (simp add: updateRecursively_leaf)
qed

theorem updateElement_any_length_witness:
  "1 \<le> depth demo_tree \<and> depth demo_tree \<le> 32
   \<and> pair_at demo_tree 3 0 \<noteq> None \<and> pair_at demo_tree 3 (Suc 0) \<noteq> None
   \<and> digest32 demo_hasher \<and> fully_constructed demo_tree \<and> write_once (db demo_tree')
   \<and> length (replicate 100 (1 :: 8 word)) \<noteq> 64
   \<and> updateElement demo_hasher demo_tree 3 (replicate 100 1)
       = Some (Inr (replicate 32 8), demo_tree')
   \<and> node_at demo_tree' 3 2 = Some (hash demo_hasher (replicate 100 1))
   \<and> (\<exists>p. length p = 2
         \<and> (if bit (3 :: int) 0 then snd (p ! 0) else fst (p ! 0)) = hash demo_hasher (replicate 100 1)
         \<and> recompute demo_hasher 3 0 p (hash demo_hasher (replicate 100 1)) = Some (replicate 32 8))"
proof -
  have d: "1 \<le> depth demo_tree" "depth demo_tree \<le> 32" by simp_all
  have "\<forall>k<depth demo_tree. pair_at demo_tree 3 k \<noteq> None"
    by (simp add: less_Suc_eq numeral_2_eq_2 demo_pair_at)
  from updateElement_any_length [OF d this, where h = demo_hasher and val = "replicate 100 1"
      and d = "[]" and cur = "[]"]
  obtain r t' where u: "updateElement demo_hasher demo_tree 3 (replicate 100 1) = Some (Inr r, t')"
    and i: "digest32 demo_hasher \<and> fully_constructed demo_tree \<longrightarrow>
      r = getRoot t' \<and> depth t' = depth demo_tree \<and> name t' = name demo_tree
      \<and> (\<exists>p. length p = depth demo_tree
           \<and> db t' = (Buffer_from (name demo_tree), r @ u32le (depth demo_tree) @ [0, 0, 0, 0])
                # map (\<lambda>q. (compress demo_hasher (fst q) (snd q), fst q @ snd q)) (rev p)
                @ db demo_tree
           \<and> (if bit (3 :: int) 0 then snd (p ! 0) else fst (p ! 0))
               = hash demo_hasher (replicate 100 1)
           \<and> recompute demo_hasher 3 0 p (hash demo_hasher (replicate 100 1)) = Some r)
      \<and> (write_once (db t') \<longrightarrow>
           node_at t' 3 (depth demo_tree) = Some (hash demo_hasher (replicate 100 1)))"
    by blast
  from u have rt: "r = replicate 32 8" "t' = demo_tree'" by (simp_all add: demo_update_long)
  from i digest32_demo demo_full demo_write_once
  have n: "node_at demo_tree' 3 (depth demo_tree) = Some (hash demo_hasher (replicate 100 1))"
    and "\<exists>p. length p = depth demo_tree
           \<and> (if bit (3 :: int) 0 then snd (p ! 0) else fst (p ! 0))
               = hash demo_hasher (replicate 100 1)
           \<and> recompute demo_hasher 3 0 p (hash demo_hasher (replicate 100 1)) = Some r"
    unfolding rt by blast+
  then obtain p where p: "length p = depth demo_tree"
    "(if bit (3 :: int) 0 then snd (p ! 0) else fst (p ! 0)) = hash demo_hasher (replicate 100 1)"
    "recompute demo_hasher 3 0 p (hash demo_hasher (replicate 100 1)) = Some (replicate 32 8)"
    unfolding rt by blast
  have dd: "depth demo_tree = 2" by simp
  have e: "\<exists>p. length p = 2
         \<and> (if bit (3 :: int) 0 then snd (p ! 0) else fst (p ! 0)) = hash demo_hasher (replicate 100 1)
         \<and> recompute demo_hasher 3 0 p (hash demo_hasher (replicate 100 1)) = Some (replicate 32 8)"
    using p unfolding dd by blast
  have pa: "pair_at demo_tree 3 0 \<noteq> None" "pair_at demo_tree 3 (Suc 0) \<noteq> None"
    by (simp_all add: demo_pair_at)
  have l: "length (replicate 100 (1 :: 8 word)) \<noteq> 64" by simp
  from d pa digest32_demo demo_full demo_write_once l demo_update_long n [unfolded dd] e
  show ?thesis by (intro conjI)
qed

section \<open>Paths of other leaves\<close>

lemma full_tree_stable:
  assumes "write_once d'" "set d \<subseteq> set d'" "full_tree d c n"
  shows "full_tree d' c n"
  using assms(3)
proof (induction n arbitrary: c)
  case 0
  then show ?case by simp
next
  case (Suc n)
  then obtain v where v: "db_get d c = Some v" "length v = 64"
    and f: "full_tree d (buf_slice v 0 32) n" "full_tree d (buf_slice v 32 64) n"
    by (auto split: option.splits)
  from write_once_stable [OF assms(1,2) v] Suc.IH f v(2) show ?case by simp
qed

lemma getHashPathRecursively_stable:
  assumes "write_once (db t')" "set (db t) \<subseteq> set (db t')" "depth t' = depth t"
    and "depth t = lvl + Suc n" "full_tree (db t) c (Suc n)"
  shows "getHashPathRecursively t' index c lvl = getHashPathRecursively t index c lvl"
  using assms(4,5)
proof (induction n arbitrary: c lvl)
  case 0
  then obtain v where v: "db_get (db t) c = Some v" "length v = 64"
    by (auto split: option.splits)
  from write_once_stable [OF assms(1,2) v] have v': "db_get (db t') c = Some v" .
  show ?case using v v' assms(3) "0.prems"(1)
    by (subst (1 2) getHashPathRecursively.simps) simp
next
  case (Suc n)
  then obtain v where v: "db_get (db t) c = Some v" "length v = 64"
    and f: "full_tree (db t) (buf_slice v 0 32) (Suc n)" "full_tree (db t) (buf_slice v 32 64) (Suc n)"
    by (auto split: option.splits)
  from write_once_stable [OF assms(1,2) v] have v': "db_get (db t') c = Some v" .
  let ?c = "if shouldGoRight index (int (depth t) - int lvl - 1) then buf_slice v 32 64 else buf_slice v 0 32"
  have "full_tree (db t) ?c (Suc n)" using f by simp
  from Suc.IH [of "Suc lvl" ?c] this Suc.prems(1)
  have "getHashPathRecursively t' index ?c (Suc lvl) = getHashPathRecursively t index ?c (Suc lvl)"
    by simp
  then show ?case using v v' assms(3) Suc.prems(1)
    by (subst (1 2) getHashPathRecursively.simps) (simp del: if_split cong: if_cong)
qed

lemma full_tree_path:
  assumes "depth t = lvl + Suc n" "full_tree (db t) c (Suc n)"
  shows "\<exists>p. getHashPathRecursively t index c lvl = Some (Inr p) \<and> length p = Suc n"
  using assms
proof (induction n arbitrary: c lvl)
  case 0
  then obtain v where v: "db_get (db t) c = Some v" by (auto split: option.splits)
  then show ?case using "0.prems"(1) by (subst getHashPathRecursively.simps) simp
next
  case (Suc n)
  then obtain v where v: "db_get (db t) c = Some v" "length v = 64"
    and f: "full_tree (db t) (buf_slice v 0 32) (Suc n)" "full_tree (db t) (buf_slice v 32 64) (Suc n)"
    by (auto split: option.splits)
  let ?c = "if shouldGoRight index (int (depth t) - int lvl - 1) then buf_slice v 32 64 else buf_slice v 0 32"
  have "full_tree (db t) ?c (Suc n)" using f by simp
  from Suc.IH [of "Suc lvl" ?c] this Suc.prems(1)
  obtain p where "getHashPathRecursively t index ?c (Suc lvl) = Some (Inr p)" "length p = Suc n"
    by auto
  then show ?case using v Suc.prems(1)
    by (subst getHashPathRecursively.simps) (simp del: if_split cong: if_cong)
qed

text \<open>
  The update of leaf \<open>i\<close> seen from the route of another index \<open>j\<close>, from a level
  \<open>lvl\<close> at or above the level \<open>m\<close> where the two routes part.
\<close>

lemma update_frame:
  assumes "digest32 h" "D \<le> 32" "depth t = D" "depth t' = D" "write_once (db t')"
    and "m < D" "bit i (D - m - 1) \<noteq> bit j (D - m - 1)"
    and "\<forall>k<m. bit i (D - k - 1) = bit j (D - k - 1)"
    and "lvl \<le> m" "D = lvl + Suc n" "full_tree (db t) cur (Suc n)"
    and "updateRecursively h D i val (db t) cur lvl = Some (Inr nd, d1)"
    and "set d1 \<subseteq> set (db t')"
  shows "\<exists>p p'. getHashPathRecursively t j cur lvl = Some (Inr p)
           \<and> getHashPathRecursively t' j nd lvl = Some (Inr p')
           \<and> length p = Suc n \<and> length p' = Suc n
           \<and> take (D - 1 - m) p = take (D - 1 - m) p'"
  using assms(9-13)
proof (induction n arbitrary: cur lvl nd d1)
  case 0
  from "0.prems"(3) obtain v where v: "db_get (db t) cur = Some v" "length v = 64"
    by (auto split: option.splits)
  let ?b = "bit i (D - lvl - 1)"
  from updateRecursively_step [OF _ assms(2) v(1) "0.prems"(4)] "0.prems"(2)
  obtain nc d2 where
    s: "updateRecursively h D i val (db t) (if ?b then buf_slice v 32 64 else buf_slice v 0 32) (Suc lvl)
          = Some (Inr nc, d2)"
      "d1 = (nd, buf_copy (if ?b then nc else buf_slice v 32 64)
                   (buf_copy (if ?b then buf_slice v 0 32 else nc) (Buffer_alloc 64) 0) 32) # d2"
    by auto
  have lnc: "length nc = 32"
    using updateRecursively_digest32 [OF assms(1) _ s(1)] "0.prems"(2) by simp
  let ?l = "if ?b then buf_slice v 0 32 else nc" and ?r = "if ?b then nc else buf_slice v 32 64"
  have len: "length ?l = 32" "length ?r = 32" using v(2) lnc by (auto simp: buf_slice_def)
  have "(nd, ?l @ ?r) \<in> set (db t')" using s(2) "0.prems"(5) node_buffer [OF len] by auto
  from write_once_get [OF assms(5) this] len have g: "db_get (db t') nd = Some (?l @ ?r)" by simp
  have 1: "getHashPathRecursively t j cur lvl = Some (Inr [(buf_slice v 0 32, buf_slice v 32 64)])"
    using v assms(3) "0.prems"(2) by (subst getHashPathRecursively.simps) simp
  have 2: "getHashPathRecursively t' j nd lvl = Some (Inr [(?l, ?r)])"
    using g len assms(4) "0.prems"(2)
    by (subst getHashPathRecursively.simps) (simp del: if_split cong: if_cong)
  have "D - 1 - m = 0" using "0.prems"(1,2) by simp
  with 1 2 show ?case by simp
next
  case (Suc n)
  from Suc.prems(3) obtain v where v: "db_get (db t) cur = Some v" "length v = 64"
    and fl: "full_tree (db t) (buf_slice v 0 32) (Suc n)"
    and fr: "full_tree (db t) (buf_slice v 32 64) (Suc n)"
    by (auto split: option.splits)
  let ?b = "bit i (D - lvl - 1)"
  let ?bj = "bit j (D - lvl - 1)"
  let ?c = "if ?b then buf_slice v 32 64 else buf_slice v 0 32"
  from updateRecursively_step [OF _ assms(2) v(1) Suc.prems(4)] Suc.prems(2)
  obtain nc d2 where
    s: "updateRecursively h D i val (db t) ?c (Suc lvl) = Some (Inr nc, d2)"
      "d1 = (nd, buf_copy (if ?b then nc else buf_slice v 32 64)
                   (buf_copy (if ?b then buf_slice v 0 32 else nc) (Buffer_alloc 64) 0) 32) # d2"
    by auto
  have lnc: "length nc = 32"
    using updateRecursively_digest32 [OF assms(1) _ s(1)] Suc.prems(2) by simp
  let ?l = "if ?b then buf_slice v 0 32 else nc" and ?r = "if ?b then nc else buf_slice v 32 64"
  have len: "length ?l = 32" "length ?r = 32" using v(2) lnc by (auto simp: buf_slice_def)
  have "(nd, ?l @ ?r) \<in> set (db t')" using s(2) Suc.prems(5) node_buffer [OF len] by auto
  from write_once_get [OF assms(5) this] len have g: "db_get (db t') nd = Some (?l @ ?r)" by simp
  have k32: "D - lvl - 1 < 32" using assms(2) by simp
  have sub2: "set d2 \<subseteq> set (db t')" using s(2) Suc.prems(5) by auto
  from updateRecursively_grows [OF _ s(1), of "Suc n"] Suc.prems(2)
  have "set (db t) \<subseteq> set d2" by auto
  with sub2 have sub: "set (db t) \<subseteq> set (db t')" by blast
  let ?cj = "if ?bj then buf_slice v 32 64 else buf_slice v 0 32"
  let ?cj' = "if ?bj then ?r else ?l"
  have old: "getHashPathRecursively t j cur lvl =
      Option.bind (getHashPathRecursively t j ?cj (Suc lvl))
        (\<lambda>res. case res of Inl e \<Rightarrow> Some (Inl e)
           | Inr acc \<Rightarrow> Some (Inr (acc @ [(buf_slice v 0 32, buf_slice v 32 64)])))"
    using v assms(3) Suc.prems(2) k32
    by (subst getHashPathRecursively.simps) (simp add: shouldGoRight_bit Let_def del: if_split cong: if_cong)
  have new: "getHashPathRecursively t' j nd lvl =
      Option.bind (getHashPathRecursively t' j ?cj' (Suc lvl))
        (\<lambda>res. case res of Inl e \<Rightarrow> Some (Inl e)
           | Inr acc \<Rightarrow> Some (Inr (acc @ [(?l, ?r)])))"
    using g len assms(4) Suc.prems(2) k32
    by (subst getHashPathRecursively.simps) (simp add: shouldGoRight_bit Let_def del: if_split cong: if_cong)
  show ?case
  proof (cases "lvl = m")
    case True
    with assms(7) have ne: "?b \<noteq> ?bj" by simp
    then have cj: "?cj' = ?cj" by auto
    have fcj: "full_tree (db t) ?cj (Suc n)" using fl fr by simp
    have dt: "depth t = Suc lvl + Suc n" using assms(3) Suc.prems(2) by simp
    from full_tree_path [OF dt fcj, of j]
    obtain q where q: "getHashPathRecursively t j ?cj (Suc lvl) = Some (Inr q)" "length q = Suc n"
      by blast
    have dt': "depth t' = depth t" using assms(3,4) by simp
    from getHashPathRecursively_stable [OF assms(5) sub dt' dt fcj, of j] q(1)
    have q': "getHashPathRecursively t' j ?cj (Suc lvl) = Some (Inr q)" by simp
    have K: "D - 1 - m = Suc n" using True Suc.prems(2) by simp
    show ?thesis
      unfolding old new cj q(1) q' K using q(2) by simp
  next
    case False
    with Suc.prems(1) have lm: "lvl < m" "Suc lvl \<le> m" by simp_all
    with assms(8) have eq: "?b = ?bj" by simp
    then have cj: "?cj = ?c" "?cj' = nc" by auto
    have fc: "full_tree (db t) ?c (Suc n)" using fl fr by simp
    from Suc.IH [OF lm(2) _ fc s(1) sub2] Suc.prems(2)
    obtain q q' where q: "getHashPathRecursively t j ?c (Suc lvl) = Some (Inr q)"
      "getHashPathRecursively t' j nc (Suc lvl) = Some (Inr q')"
      "length q = Suc n" "length q' = Suc n" "take (D - 1 - m) q = take (D - 1 - m) q'"
      by auto
    have K: "D - 1 - m \<le> Suc n" using lm Suc.prems(2) by simp
    show ?thesis
      unfolding old new cj q(1,2) using q(3,4,5) K by simp
  qed
qed

lemma demo_path_0:
  "getHashPath demo_tree 0 =
     Some (Inr [(replicate 32 0, replicate 32 0), (replicate 32 1, replicate 32 1)], demo_tree)"
  apply (simp add: getHashPath_def)
  apply (subst getHashPathRecursively.simps, simp add: shouldGoRight_def Let_def)
  apply (subst getHashPathRecursively.simps, simp add: Let_def)
  done

lemma demo_path_0':
  "getHashPath demo_tree' 0 =
     Some (Inr [(replicate 32 0, replicate 32 0), (replicate 32 1, replicate 32 3)], demo_tree')"
  apply (simp add: getHashPath_def)
  apply (subst getHashPathRecursively.simps, simp add: shouldGoRight_def Let_def)
  apply (subst getHashPathRecursively.simps, simp add: Let_def)
  done

lemma demo3_fields [simp]:
  "depth demo3_tree = 3" "root demo3_tree = replicate 32 13" "name demo3_tree = ''t''"
  "db demo3_tree = demo3_db"
  by (simp_all add: demo3_tree_def)

lemma demo3_get [simp]:
  "db_get demo3_db (replicate 32 13) = Some (replicate 32 4 @ replicate 32 4)"
  "db_get demo3_db (replicate 32 4) = Some (replicate 32 1 @ replicate 32 1)"
  "db_get demo3_db (replicate 32 1) = Some (replicate 32 0 @ replicate 32 0)"
  by (simp_all add: db_get_def demo3_db_def neq_by_length)

lemma demo3_full: "fully_constructed demo3_tree"
  by (simp add: fully_constructed_def numeral_3_eq_3)

lemma demo3_update:
  "updateElement demo_hasher demo3_tree 3 (replicate 64 1) = Some (Inr (replicate 32 17), demo3_tree')"
  apply (simp add: updateElement_def)
  apply (subst updateRecursively.simps, simp add: shouldGoRight_def)
  apply (subst updateRecursively.simps, simp add: shouldGoRight_def)
  apply (subst updateRecursively.simps, simp add: shouldGoRight_def)
  apply (subst updateRecursively.simps, simp add: demo_hash demo_compress db_put_def Let_def)
  apply (simp add: writeMetaData_eq u32le_def demo3_tree'_def demo3_tree_def buf_copy_same_length Buffer_from_def)
  done

lemma demo3_write_once: "write_once (db demo3_tree')"
  by (simp add: write_once_def demo3_tree'_def demo3_db_def neq_by_length)

text \<open>
  The same for any index \<open>j\<close>: at every level the slot that is not on the route of
  \<open>i\<close> is kept.
\<close>

lemma update_off_route:
  assumes "digest32 h" "D \<le> 32" "depth t = D" "depth t' = D" "write_once (db t')"
    and "D = lvl + Suc n" "full_tree (db t) cur (Suc n)"
    and "updateRecursively h D i val (db t) cur lvl = Some (Inr nd, d1)"
    and "set d1 \<subseteq> set (db t')"
  shows "\<exists>p p'. getHashPathRecursively t j cur lvl = Some (Inr p)
           \<and> getHashPathRecursively t' j nd lvl = Some (Inr p')
           \<and> length p = Suc n \<and> length p' = Suc n
           \<and> (\<forall>q<Suc n. if bit i q then fst (p ! q) = fst (p' ! q)
                          else snd (p ! q) = snd (p' ! q))"
  using assms(6-9)
proof (induction n arbitrary: cur lvl nd d1)
  case 0
  from "0.prems"(2) obtain v where v: "db_get (db t) cur = Some v" "length v = 64"
    by (auto split: option.splits)
  let ?b = "bit i (D - lvl - 1)"
  from updateRecursively_step [OF _ assms(2) v(1) "0.prems"(3)] "0.prems"(1)
  obtain nc d2 where
    s: "updateRecursively h D i val (db t) (if ?b then buf_slice v 32 64 else buf_slice v 0 32) (Suc lvl)
          = Some (Inr nc, d2)"
      "d1 = (nd, buf_copy (if ?b then nc else buf_slice v 32 64)
                   (buf_copy (if ?b then buf_slice v 0 32 else nc) (Buffer_alloc 64) 0) 32) # d2"
    by auto
  have lnc: "length nc = 32"
    using updateRecursively_digest32 [OF assms(1) _ s(1)] "0.prems"(1) by simp
  define l where "l = (if ?b then buf_slice v 0 32 else nc)"
  define r where "r = (if ?b then nc else buf_slice v 32 64)"
  have len: "length l = 32" "length r = 32" using v(2) lnc by (auto simp: l_def r_def buf_slice_def)
  have "(nd, l @ r) \<in> set (db t')"
    using s(2) "0.prems"(4) node_buffer [OF len] by (auto simp: l_def r_def)
  from write_once_get [OF assms(5) this] len have g: "db_get (db t') nd = Some (l @ r)" by simp
  have 1: "getHashPathRecursively t j cur lvl = Some (Inr [(buf_slice v 0 32, buf_slice v 32 64)])"
    using v assms(3) "0.prems"(1) by (subst getHashPathRecursively.simps) simp
  have 2: "getHashPathRecursively t' j nd lvl = Some (Inr [(l, r)])"
    using g len assms(4) "0.prems"(1)
    by (subst getHashPathRecursively.simps) simp
  have b0: "D - lvl - 1 = 0" using "0.prems"(1) by simp
  have "if bit i 0 then fst (buf_slice v 0 32, buf_slice v 32 64) = fst (l, r)
        else snd (buf_slice v 0 32, buf_slice v 32 64) = snd (l, r)"
    using b0 by (simp add: l_def r_def)
  with 1 2 show ?case by (auto split: if_splits)
next
  case (Suc n)
  from Suc.prems(2) obtain v where v: "db_get (db t) cur = Some v" "length v = 64"
    and fl: "full_tree (db t) (buf_slice v 0 32) (Suc n)"
    and fr: "full_tree (db t) (buf_slice v 32 64) (Suc n)"
    by (auto split: option.splits)
  let ?b = "bit i (D - lvl - 1)"
  let ?bj = "bit j (D - lvl - 1)"
  let ?c = "if ?b then buf_slice v 32 64 else buf_slice v 0 32"
  from updateRecursively_step [OF _ assms(2) v(1) Suc.prems(3)] Suc.prems(1)
  obtain nc d2 where
    s: "updateRecursively h D i val (db t) ?c (Suc lvl) = Some (Inr nc, d2)"
      "d1 = (nd, buf_copy (if ?b then nc else buf_slice v 32 64)
                   (buf_copy (if ?b then buf_slice v 0 32 else nc) (Buffer_alloc 64) 0) 32) # d2"
    by auto
  have lnc: "length nc = 32"
    using updateRecursively_digest32 [OF assms(1) _ s(1)] Suc.prems(1) by simp
  define l where "l = (if ?b then buf_slice v 0 32 else nc)"
  define r where "r = (if ?b then nc else buf_slice v 32 64)"
  have len: "length l = 32" "length r = 32" using v(2) lnc by (auto simp: l_def r_def buf_slice_def)
  have "(nd, l @ r) \<in> set (db t')"
    using s(2) Suc.prems(4) node_buffer [OF len] by (auto simp: l_def r_def)
  from write_once_get [OF assms(5) this] len have g: "db_get (db t') nd = Some (l @ r)" by simp
  have k32: "D - lvl - 1 < 32" using assms(2) by simp
  have lv: "lvl < D" using Suc.prems(1) by simp
  have "int D - int lvl - 1 = int (D - lvl - 1)" using lv by simp
  then have sg: "shouldGoRight j (int D - int lvl - 1) = ?bj"
    using shouldGoRight_nat [OF k32, of j] by simp
  have sub2: "set d2 \<subseteq> set (db t')" using s(2) Suc.prems(4) by auto
  from updateRecursively_grows [OF _ s(1), of "Suc n"] Suc.prems(1)
  have "set (db t) \<subseteq> set d2" by auto
  with sub2 have sub: "set (db t) \<subseteq> set (db t')" by blast
  let ?cj = "if ?bj then buf_slice v 32 64 else buf_slice v 0 32"
  let ?cj' = "if ?bj then r else l"
  have nl: "depth t \<noteq> lvl + 1" "depth t' \<noteq> lvl + 1" using assms(3,4) Suc.prems(1) by simp_all
  have old: "getHashPathRecursively t j cur lvl =
      Option.bind (getHashPathRecursively t j ?cj (Suc lvl))
        (\<lambda>res. case res of Inl e \<Rightarrow> Some (Inl e)
           | Inr acc \<Rightarrow> Some (Inr (acc @ [(buf_slice v 0 32, buf_slice v 32 64)])))"
    apply (subst getHashPathRecursively.simps)
    using v nl assms(3) sg
    apply (simp add: Let_def del: if_split cong: if_cong)
    done
  have new: "getHashPathRecursively t' j nd lvl =
      Option.bind (getHashPathRecursively t' j ?cj' (Suc lvl))
        (\<lambda>res. case res of Inl e \<Rightarrow> Some (Inl e)
           | Inr acc \<Rightarrow> Some (Inr (acc @ [(l, r)])))"
    apply (subst getHashPathRecursively.simps)
    using g len nl assms(4) sg
    apply (simp add: Let_def del: if_split cong: if_cong)
    done
  have bn: "D - lvl - 1 = Suc n" using Suc.prems(1) by simp
  have top: "if bit i (Suc n) then fst (buf_slice v 0 32, buf_slice v 32 64) = fst (l, r)
        else snd (buf_slice v 0 32, buf_slice v 32 64) = snd (l, r)"
    using bn by (simp add: l_def r_def)
  have "\<exists>q q'. getHashPathRecursively t j ?cj (Suc lvl) = Some (Inr q)
         \<and> getHashPathRecursively t' j ?cj' (Suc lvl) = Some (Inr q')
         \<and> length q = Suc n \<and> length q' = Suc n
         \<and> (\<forall>k<Suc n. if bit i k then fst (q ! k) = fst (q' ! k) else snd (q ! k) = snd (q' ! k))"
  proof (cases "?b = ?bj")
    case True
    then have cj: "?cj = ?c" "?cj' = nc" by (auto simp: l_def r_def)
    have fc: "full_tree (db t) ?c (Suc n)" using fl fr by simp
    from Suc.IH [OF _ fc s(1) sub2] Suc.prems(1)
    show ?thesis unfolding cj by simp
  next
    case False
    then have cj: "?cj' = ?cj" by (auto simp: l_def r_def)
    have fcj: "full_tree (db t) ?cj (Suc n)" using fl fr by simp
    have dt: "depth t = Suc lvl + Suc n" using assms(3) Suc.prems(1) by simp
    from full_tree_path [OF dt fcj, of j]
    obtain q where q: "getHashPathRecursively t j ?cj (Suc lvl) = Some (Inr q)" "length q = Suc n"
      by blast
    have dt': "depth t' = depth t" using assms(3,4) by simp
    from getHashPathRecursively_stable [OF assms(5) sub dt' dt fcj, of j] q(1)
    have q': "getHashPathRecursively t' j ?cj (Suc lvl) = Some (Inr q)" by simp
    show ?thesis unfolding cj using q q' by auto
  qed
  then obtain q q' where q: "getHashPathRecursively t j ?cj (Suc lvl) = Some (Inr q)"
      "getHashPathRecursively t' j ?cj' (Suc lvl) = Some (Inr q')"
      "length q = Suc n" "length q' = Suc n"
      "\<forall>k<Suc n. if bit i k then fst (q ! k) = fst (q' ! k) else snd (q ! k) = snd (q' ! k)"
    by blast
  let ?p = "q @ [(buf_slice v 0 32, buf_slice v 32 64)]" and ?p' = "q' @ [(l, r)]"
  have "\<forall>k<Suc (Suc n). if bit i k then fst (?p ! k) = fst (?p' ! k) else snd (?p ! k) = snd (?p' ! k)"
  proof (intro allI impI)
    fix k assume "k < Suc (Suc n)"
    then consider "k < Suc n" | "k = Suc n" by linarith
    then show "if bit i k then fst (?p ! k) = fst (?p' ! k) else snd (?p ! k) = snd (?p' ! k)"
    proof cases
      case 1
      then show ?thesis using q(3,4,5) by (simp add: nth_append)
    next
      case 2
      then show ?thesis using q(3,4) top by (auto simp add: nth_append split: if_splits)
    qed
  qed
  moreover have "getHashPathRecursively t j cur lvl = Some (Inr ?p)" unfolding old q(1) by simp
  moreover have "getHashPathRecursively t' j nd lvl = Some (Inr ?p')" unfolding new q(2) by simp
  ultimately show ?case using q(3,4) by (intro exI conjI) simp_all
qed


text \<open>
  Updating a leaf changes the path of every other leaf: the pair of the root holds the
  digest of the half that contains the updated leaf. In the running example leaf 3 is
  updated, and the last pair of the path of leaf 0, whose route parts from that of leaf
  3 at the root, is \<open>(1.., 1..)\<close> before and \<open>(1.., 3..)\<close> after.
\<close>

theorem update_changes_other_path_counterexample:
  "fully_constructed demo_tree
   \<and> updateElement demo_hasher demo_tree 3 (replicate 64 1) = Some (Inr (replicate 32 8), demo_tree')
   \<and> getHashPath demo_tree 0 =
       Some (Inr [(replicate 32 0, replicate 32 0), (replicate 32 1, replicate 32 1)], demo_tree)
   \<and> getHashPath demo_tree' 0 =
       Some (Inr [(replicate 32 0, replicate 32 0), (replicate 32 1, replicate 32 3)], demo_tree')
   \<and> (replicate 32 1, replicate 32 1) \<noteq> (replicate 32 1, replicate 32 (3 :: 8 word))"
  using demo_full demo_update demo_path_0 demo_path_0' by simp

text \<open>
  Claim C6, amended. On a fully constructed tree, with 32-byte digests and no node entry
  overwritten by different content, \<open>updateElement i value\<close> changes in
  \<open>getHashPath j\<close>, for every index \<open>j\<close>, at most the slots on the route of \<open>i\<close>:
  the path has the same length before and after, and in every pair the slot that is not
  on the route of \<open>i\<close>, the left one at position \<open>q\<close> when bit \<open>q\<close> of \<open>i\<close> is set and
  the right one otherwise, is the same before and after. When the routes of \<open>i\<close> and
  \<open>j\<close> agree above level \<open>m\<close> and part at level \<open>m\<close>, the pairs below level \<open>m\<close>, the
  first \<open>depth - 1 - m\<close> of the path, are the same before and after in both slots.
\<close>

theorem update_keeps_sibling_digests:
  assumes "digest32 h" "fully_constructed t"
    and "updateElement h t i val = Some (Inr r, t')" "write_once (db t')"
  shows "\<exists>p p'. getHashPath t j = Some (Inr p, t) \<and> getHashPath t' j = Some (Inr p', t')
           \<and> length p = depth t \<and> length p' = depth t
           \<and> (\<forall>q<depth t. if bit i q then fst (p ! q) = fst (p' ! q)
                              else snd (p ! q) = snd (p' ! q))
           \<and> (\<forall>m<depth t.
                 bit i (depth t - m - 1) \<noteq> bit j (depth t - m - 1)
                 \<and> (\<forall>k<m. bit i (depth t - k - 1) = bit j (depth t - k - 1))
                 \<longrightarrow> take (depth t - 1 - m) p = take (depth t - 1 - m) p')"
proof -
  from assms(2) have d: "1 \<le> depth t" "depth t \<le> 32" and lr: "length (root t) = 32"
    and f: "full_tree (db t) (root t) (depth t)"
    by (simp_all add: fully_constructed_def)
  from d(1) obtain n where n: "depth t = 0 + Suc n" by (cases "depth t") auto
  from assms(3) obtain nd d1 where
    u: "updateRecursively h (depth t) i val (db t) (root t) 0 = Some (Inr nd, d1)"
    and w: "writeMetaData (t\<lparr>db := d1, root := buf_copy nd (root t) 0\<rparr>) = Inr t'"
    by (auto simp: updateElement_def Let_def split: option.splits sum.splits prod.splits)
  have lnd: "length nd = 32" using updateRecursively_digest32 [OF assms(1) _ u] by simp
  then have rt: "buf_copy nd (root t) 0 = nd" using lr by (simp add: buf_copy_same_length)
  let ?t1 = "t\<lparr>db := d1, root := nd\<rparr>"
  have "length (root ?t1) = 32" "depth ?t1 < 2 ^ 32" using lnd d(2) by simp_all
  from writeMetaData_eq [OF this] w rt
  have t': "t' = ?t1\<lparr>db := (Buffer_from (name ?t1), root ?t1 @ u32le (depth ?t1) @ [0, 0, 0, 0]) # db ?t1\<rparr>"
    by simp
  then have 1: "depth t' = depth t" "root t' = nd" "set d1 \<subseteq> set (db t')" by auto
  from f n have f': "full_tree (db t) (root t) (Suc n)" by simp
  from update_off_route [OF assms(1) d(2) refl 1(1) assms(4) n f' u 1(3), of j]
  obtain p p' where p: "getHashPathRecursively t j (root t) 0 = Some (Inr p)"
    "getHashPathRecursively t' j nd 0 = Some (Inr p')" "length p = Suc n" "length p' = Suc n"
    "\<forall>q<Suc n. if bit i q then fst (p ! q) = fst (p' ! q) else snd (p ! q) = snd (p' ! q)"
    by blast
  have "take (depth t - 1 - m) p = take (depth t - 1 - m) p'"
    if m: "m < depth t" and b: "bit i (depth t - m - 1) \<noteq> bit j (depth t - m - 1)"
      and a: "\<forall>k<m. bit i (depth t - k - 1) = bit j (depth t - k - 1)" for m
    using update_frame [OF assms(1) d(2) refl 1(1) assms(4) m b a _ n f' u 1(3)] p(1,2)
    by auto
  with p 1 n show ?thesis by (simp add: getHashPath_def)
qed

theorem update_keeps_sibling_digests_witness:
  "digest32 demo_hasher \<and> fully_constructed demo3_tree
   \<and> updateElement demo_hasher demo3_tree 3 (replicate 64 1)
       = Some (Inr (replicate 32 17), demo3_tree')
   \<and> write_once (db demo3_tree') \<and> 1 < depth demo3_tree
   \<and> bit (3 :: int) (depth demo3_tree - 1 - 1) \<noteq> bit (1 :: int) (depth demo3_tree - 1 - 1)
   \<and> bit (3 :: int) (depth demo3_tree - 0 - 1) = bit (1 :: int) (depth demo3_tree - 0 - 1)
   \<and> (\<exists>p p'. getHashPath demo3_tree 1 = Some (Inr p, demo3_tree)
         \<and> getHashPath demo3_tree' 1 = Some (Inr p', demo3_tree')
         \<and> length p = 3 \<and> length p' = 3
         \<and> fst (p ! 0) = fst (p' ! 0) \<and> fst (p ! 1) = fst (p' ! 1) \<and> snd (p ! 2) = snd (p' ! 2)
         \<and> take 1 p = take 1 p')"
proof -
  have b: "bit (3 :: int) (depth demo3_tree - 1 - 1) \<noteq> bit (1 :: int) (depth demo3_tree - 1 - 1)"
    by simp
  have c: "bit (3 :: int) (depth demo3_tree - 0 - 1) = bit (1 :: int) (depth demo3_tree - 0 - 1)"
    by (simp add: bit_iff_odd)
  then have c': "\<forall>k<1. bit (3 :: int) (depth demo3_tree - k - 1) = bit (1 :: int) (depth demo3_tree - k - 1)"
    by simp
  have m: "1 < depth demo3_tree" by simp
  have dd: "depth demo3_tree = 3" by simp
  from update_keeps_sibling_digests
    [OF digest32_demo demo3_full demo3_update demo3_write_once, of 1]
  obtain p p' where p: "getHashPath demo3_tree 1 = Some (Inr p, demo3_tree)"
    "getHashPath demo3_tree' 1 = Some (Inr p', demo3_tree')"
    "length p = depth demo3_tree" "length p' = depth demo3_tree"
    and s: "\<forall>q<depth demo3_tree. if bit (3 :: int) q then fst (p ! q) = fst (p' ! q)
                              else snd (p ! q) = snd (p' ! q)"
    and k: "\<forall>m<depth demo3_tree.
                 bit (3 :: int) (depth demo3_tree - m - 1) \<noteq> bit (1 :: int) (depth demo3_tree - m - 1)
                 \<and> (\<forall>k<m. bit (3 :: int) (depth demo3_tree - k - 1) = bit (1 :: int) (depth demo3_tree - k - 1))
                 \<longrightarrow> take (depth demo3_tree - 1 - m) p = take (depth demo3_tree - 1 - m) p'"
    by blast
  from k m b c' have tk: "take (depth demo3_tree - 1 - 1) p = take (depth demo3_tree - 1 - 1) p'"
    by blast
  have "(0 :: nat) < depth demo3_tree" "(1 :: nat) < depth demo3_tree" "(2 :: nat) < depth demo3_tree"
    by simp_all
  with s have "if bit (3 :: int) 0 then fst (p ! 0) = fst (p' ! 0) else snd (p ! 0) = snd (p' ! 0)"
    "if bit (3 :: int) 1 then fst (p ! 1) = fst (p' ! 1) else snd (p ! 1) = snd (p' ! 1)"
    "if bit (3 :: int) 2 then fst (p ! 2) = fst (p' ! 2) else snd (p ! 2) = snd (p' ! 2)"
    by blast+
  then have q: "fst (p ! 0) = fst (p' ! 0)" "fst (p ! 1) = fst (p' ! 1)" "snd (p ! 2) = snd (p' ! 2)"
    by (simp_all add: bit_iff_odd)
  have "\<exists>p p'. getHashPath demo3_tree 1 = Some (Inr p, demo3_tree)
         \<and> getHashPath demo3_tree' 1 = Some (Inr p', demo3_tree')
         \<and> length p = 3 \<and> length p' = 3
         \<and> fst (p ! 0) = fst (p' ! 0) \<and> fst (p ! 1) = fst (p' ! 1) \<and> snd (p ! 2) = snd (p' ! 2)
         \<and> take 1 p = take 1 p'"
    using p q tk unfolding dd by (intro exI [of _ p] exI [of _ p']) simp
  with digest32_demo demo3_full demo3_update demo3_write_once m b c
  show ?thesis by (intro conjI)
qed

section \<open>Content addressing\<close>

lemma content_addressed_iff:
  "content_addressed h nm d \<longleftrightarrow> (\<forall>e\<in>set d. node_entry h e \<or> meta_entry nm e)"
  by (simp add: content_addressed_def list_all_iff)

lemma collision_free_iff:
  "collision_free h d \<longleftrightarrow>
     (\<forall>k v k' v'. (k, v) \<in> set d \<and> (k', v') \<in> set d \<and> length v = 64 \<and> length v' = 64 \<and>
        compress h (buf_slice v 0 32) (buf_slice v 32 64)
          = compress h (buf_slice v' 0 32) (buf_slice v' 32 64) \<longrightarrow> v' = v)"
  unfolding collision_free_def list_all_iff Ball_def split_paired_All
  by (simp only: split_conv) blast

lemma name_fresh_iff:
  "name_fresh nm d \<longleftrightarrow> (\<forall>k v. (k, v) \<in> set d \<and> length v = 64 \<longrightarrow> k \<noteq> Buffer_from nm)"
  unfolding name_fresh_def list_all_iff Ball_def split_paired_All
  by (simp only: split_conv) blast

lemma collision_free_subset: "collision_free h d' \<Longrightarrow> set d \<subseteq> set d' \<Longrightarrow> collision_free h d"
  unfolding collision_free_iff by blast

lemma name_fresh_subset: "name_fresh nm d' \<Longrightarrow> set d \<subseteq> set d' \<Longrightarrow> name_fresh nm d"
  unfolding name_fresh_iff by blast

text \<open>Content addressing makes the store write-once, unless compress collides.\<close>

lemma content_addressed_write_once:
  assumes "content_addressed h nm d" "collision_free h d" "name_fresh nm d"
  shows "write_once d"
  unfolding write_once_iff
proof (intro allI impI, elim conjE)
  fix k v v'
  assume kv: "(k, v) \<in> set d" and kv': "(k, v') \<in> set d" and l: "length v = 64"
  from assms(3) kv l have nk: "k \<noteq> Buffer_from nm" by (auto simp: name_fresh_iff)
  from assms(1) kv nk have n: "node_entry h (k, v)"
    by (auto simp: content_addressed_iff meta_entry_def)
  from assms(1) kv' nk have n': "node_entry h (k, v')"
    by (auto simp: content_addressed_iff meta_entry_def)
  from n n' have "length v' = 64"
    "compress h (buf_slice v 0 32) (buf_slice v 32 64)
       = compress h (buf_slice v' 0 32) (buf_slice v' 32 64)"
    by (simp_all add: node_entry_def)
  with assms(2) kv kv' l show "v' = v" unfolding collision_free_iff by blast
qed

lemma node_entry_pair:
  assumes "length l = 32" "length r = 32"
  shows "node_entry h (compress h l r, l @ r)"
  using assms by (simp add: node_entry_def)

lemma updateRecursively_writes:
  assumes "digest32 h" "D \<le> 32"
    and "D = lvl + n" "full_tree d cur n"
    and "updateRecursively h D index val d cur lvl = Some (Inr nd, d1)"
  shows "\<exists>ws. d1 = ws @ d \<and> length ws = n \<and> list_all (node_entry h) ws"
  using assms(3-5)
proof (induction n arbitrary: cur lvl nd d1)
  case 0
  then show ?case by (simp add: updateRecursively_leaf)
next
  case (Suc n)
  from Suc.prems(2) obtain v where v: "db_get d cur = Some v" "length v = 64"
    and fl: "full_tree d (buf_slice v 0 32) n" and fr: "full_tree d (buf_slice v 32 64) n"
    by (auto split: option.splits)
  let ?b = "bit index (D - lvl - 1)"
  let ?c = "if ?b then buf_slice v 32 64 else buf_slice v 0 32"
  from updateRecursively_step [OF _ assms(2) v(1) Suc.prems(3)] Suc.prems(1)
  obtain nc d2 where
    s: "updateRecursively h D index val d ?c (Suc lvl) = Some (Inr nc, d2)"
      "nd = compress h (if ?b then buf_slice v 0 32 else nc) (if ?b then nc else buf_slice v 32 64)"
      "d1 = (nd, buf_copy (if ?b then nc else buf_slice v 32 64)
                   (buf_copy (if ?b then buf_slice v 0 32 else nc) (Buffer_alloc 64) 0) 32) # d2"
    by auto
  have lnc: "length nc = 32"
    using updateRecursively_digest32 [OF assms(1) _ s(1)] Suc.prems(1) by simp
  let ?l = "if ?b then buf_slice v 0 32 else nc" and ?r = "if ?b then nc else buf_slice v 32 64"
  have len: "length ?l = 32" "length ?r = 32" using v(2) lnc by (auto simp: buf_slice_def)
  have d1: "d1 = (compress h ?l ?r, ?l @ ?r) # d2" using s(2,3) node_buffer [OF len] by simp
  have fc: "full_tree d ?c n" using fl fr by simp
  from Suc.IH [of "Suc lvl" ?c nc d2] Suc.prems(1) fc s(1)
  obtain ws where ws: "d2 = ws @ d" "length ws = n" "list_all (node_entry h) ws" by auto
  let ?ws = "(compress h ?l ?r, ?l @ ?r) # ws"
  have "d1 = ?ws @ d" "length ?ws = Suc n" "list_all (node_entry h) ?ws"
    using d1 ws node_entry_pair [OF len] by simp_all
  then show ?case by blast
qed

lemma updateRecursively_full:
  assumes "digest32 h" "D \<le> 32" "write_once d'"
    and "D = lvl + n" "full_tree d cur n"
    and "updateRecursively h D index val d cur lvl = Some (Inr nd, d1)"
    and "set d1 \<subseteq> set d'"
  shows "full_tree d' nd n"
  using assms(4-7)
proof (induction n arbitrary: cur lvl nd d1)
  case 0
  then show ?case by simp
next
  case (Suc n)
  from Suc.prems(2) obtain v where v: "db_get d cur = Some v" "length v = 64"
    and fl: "full_tree d (buf_slice v 0 32) n" and fr: "full_tree d (buf_slice v 32 64) n"
    by (auto split: option.splits)
  let ?b = "bit index (D - lvl - 1)"
  let ?c = "if ?b then buf_slice v 32 64 else buf_slice v 0 32"
  from updateRecursively_step [OF _ assms(2) v(1) Suc.prems(3)] Suc.prems(1)
  obtain nc d2 where
    s: "updateRecursively h D index val d ?c (Suc lvl) = Some (Inr nc, d2)"
      "d1 = (nd, buf_copy (if ?b then nc else buf_slice v 32 64)
                   (buf_copy (if ?b then buf_slice v 0 32 else nc) (Buffer_alloc 64) 0) 32) # d2"
    by auto
  have lnc: "length nc = 32"
    using updateRecursively_digest32 [OF assms(1) _ s(1)] Suc.prems(1) by simp
  let ?l = "if ?b then buf_slice v 0 32 else nc" and ?r = "if ?b then nc else buf_slice v 32 64"
  have len: "length ?l = 32" "length ?r = 32" using v(2) lnc by (auto simp: buf_slice_def)
  have "(nd, ?l @ ?r) \<in> set d'" using s(2) Suc.prems(4) node_buffer [OF len] by auto
  from write_once_get [OF assms(3) this] len have g: "db_get d' nd = Some (?l @ ?r)" by simp
  have sub2: "set d2 \<subseteq> set d'" using s(2) Suc.prems(4) by auto
  from updateRecursively_grows [OF _ s(1), of n] Suc.prems(1) have "set d \<subseteq> set d2" by auto
  with sub2 have sub: "set d \<subseteq> set d'" by blast
  have fc: "full_tree d ?c n" using fl fr by simp
  from Suc.IH [of "Suc lvl" ?c nc d2] Suc.prems(1) fc s(1) sub2
  have fnc: "full_tree d' nc n" by simp
  have fl': "full_tree d' (buf_slice v 0 32) n" and fr': "full_tree d' (buf_slice v 32 64) n"
    using full_tree_stable [OF assms(3) sub] fl fr by simp_all
  define l where "l = ?l"
  define r where "r = ?r"
  have "full_tree d' l n" "full_tree d' r n" using fnc fl' fr' by (simp_all add: l_def r_def)
  moreover have "length l = 32" "length r = 32" using len by (simp_all add: l_def r_def)
  moreover have "db_get d' nd = Some (l @ r)" using g by (simp add: l_def r_def)
  ultimately show ?case by simp
qed

lemma updateElement_frame:
  assumes "updateElement h t index val = Some (res, t')"
  shows "set (db t) \<subseteq> set (db t') \<and> depth t' = depth t \<and> name t' = name t"
proof -
  from assms obtain r1 d1 where
    u: "updateRecursively h (depth t) index val (db t) (root t) 0 = Some (r1, d1)"
    by (auto simp: updateElement_def split: option.splits)
  from updateRecursively_grows [OF _ u, of "depth t"] have g: "set (db t) \<subseteq> set d1" by auto
  show ?thesis
  proof (cases r1)
    case (Inl e)
    with assms u g show ?thesis by (auto simp: updateElement_def)
  next
    case (Inr nd)
    let ?t1 = "t\<lparr>db := d1, root := buf_copy nd (root t) 0\<rparr>"
    from assms u Inr have "t' = ?t1 \<or> writeMetaData ?t1 = Inr t'"
      by (auto simp: updateElement_def Let_def split: sum.splits)
    then show ?thesis
    proof
      assume "t' = ?t1" with g show ?thesis by simp
    next
      assume "writeMetaData ?t1 = Inr t'"
      then have "\<exists>e. t' = ?t1\<lparr>db := e # d1\<rparr>"
        by (auto simp: writeMetaData_def db_put_def split: sum.splits)
      with g show ?thesis by auto
    qed
  qed
qed

lemma run_updates_frame:
  assumes "run_updates h t0 us = Some t"
  shows "set (db t0) \<subseteq> set (db t) \<and> depth t = depth t0 \<and> name t = name t0"
  using assms
proof (induction us arbitrary: t0)
  case Nil
  then show ?case by simp
next
  case (Cons u us)
  from Cons.prems obtain r t1 where
    1: "updateElement h t0 (fst u) (snd u) = Some (Inr r, t1)" "run_updates h t1 us = Some t"
    by (auto split: option.splits sum.splits prod.splits)
  from updateElement_frame [OF 1(1)] Cons.IH [OF 1(2)] show ?case by auto
qed

lemma run_updates_append:
  "run_updates h t0 (us1 @ us2) =
     (case run_updates h t0 us1 of None \<Rightarrow> None | Some tk \<Rightarrow> run_updates h tk us2)"
  by (induction us1 arbitrary: t0) (auto split: option.splits sum.splits prod.splits)

lemma updateElement_inv:
  assumes "digest32 h" "tree_inv h nm t"
    and "updateElement h t index val = Some (Inr r, t')"
    and "collision_free h (db t')" "name_fresh nm (db t')"
  shows "tree_inv h nm t'"
proof -
  from assms(2) have ca: "content_addressed h nm (db t)" and fc: "fully_constructed t"
    and nm: "name t = nm" by (simp_all add: tree_inv_def)
  from fc have d: "1 \<le> depth t" "depth t \<le> 32" and lr: "length (root t) = 32"
    and f: "full_tree (db t) (root t) (depth t)"
    by (simp_all add: fully_constructed_def)
  from assms(3) obtain nd d1 where
    u: "updateRecursively h (depth t) index val (db t) (root t) 0 = Some (Inr nd, d1)"
    and w: "writeMetaData (t\<lparr>db := d1, root := buf_copy nd (root t) 0\<rparr>) = Inr t'"
    by (auto simp: updateElement_def Let_def split: option.splits sum.splits prod.splits)
  have lnd: "length nd = 32" using updateRecursively_digest32 [OF assms(1) _ u] by simp
  then have rt: "buf_copy nd (root t) 0 = nd" using lr by (simp add: buf_copy_same_length)
  let ?t1 = "t\<lparr>db := d1, root := nd\<rparr>"
  have "length (root ?t1) = 32" "depth ?t1 < 2 ^ 32" using lnd d(2) by simp_all
  from writeMetaData_eq [OF this] w rt
  have t': "t' = ?t1\<lparr>db := (Buffer_from (name ?t1), root ?t1 @ u32le (depth ?t1) @ [0, 0, 0, 0]) # db ?t1\<rparr>"
    by simp
  from updateRecursively_writes [OF assms(1) d(2) _ f u]
  obtain ws where ws: "d1 = ws @ db t" "list_all (node_entry h) ws" by auto
  have m: "meta_entry nm (Buffer_from nm, nd @ u32le (depth t) @ [0, 0, 0, 0])"
    using lnd by (simp add: meta_entry_def)
  have ca': "content_addressed h nm (db t')"
    using ca ws m nm unfolding t' by (auto simp: content_addressed_iff list_all_iff)
  from content_addressed_write_once [OF ca' assms(4,5)] have wo: "write_once (db t')" .
  have sub: "set d1 \<subseteq> set (db t')" unfolding t' by auto
  from updateRecursively_full [OF assms(1) d(2) wo _ f u sub]
  have "full_tree (db t') nd (depth t)" by simp
  then have "fully_constructed t'" using d lnd unfolding t' by (simp add: fully_constructed_def)
  with ca' nm show ?thesis unfolding t' by (simp add: tree_inv_def)
qed

lemma run_updates_inv:
  assumes "digest32 h" "tree_inv h nm t0" "run_updates h t0 us = Some t"
    and "collision_free h (db t)" "name_fresh nm (db t)"
  shows "tree_inv h nm t"
  using assms(2,3)
proof (induction us arbitrary: t0)
  case Nil
  then show ?case by simp
next
  case (Cons u us)
  from Cons.prems(2) obtain r t1 where
    1: "updateElement h t0 (fst u) (snd u) = Some (Inr r, t1)" "run_updates h t1 us = Some t"
    by (auto split: option.splits sum.splits prod.splits)
  from run_updates_frame [OF 1(2)] have sub: "set (db t1) \<subseteq> set (db t)" by simp
  from updateElement_inv [OF assms(1) Cons.prems(1) 1(1)]
    collision_free_subset [OF assms(4) sub] name_fresh_subset [OF assms(5) sub]
  have "tree_inv h nm t1" by simp
  from Cons.IH [OF this 1(2)] show ?case .
qed

lemma fresh_full:
  assumes "digest32 h" "write_once d'" "set (level_entries h D D) \<subseteq> set d'"
  shows "i \<le> D \<Longrightarrow> n = D - i \<Longrightarrow> full_tree d' (digest h D i) n"
proof (induction n arbitrary: i)
  case 0
  then show ?case by simp
next
  case (Suc n)
  then have i: "i < D" by simp
  let ?c = "digest h D (Suc i)"
  have "(digest h D i, ?c @ ?c) \<in> set (level_entries h D D)"
    using i by (auto simp: level_entries_def)
  with assms(3) have "(digest h D i, ?c @ ?c) \<in> set d'" by blast
  from write_once_get [OF assms(2) this] length_digest [OF assms(1), of D "Suc i"]
  have g: "db_get d' (digest h D i) = Some (?c @ ?c)" by simp
  have "Suc i \<le> D" "n = D - Suc i" using Suc.prems by simp_all
  from Suc.IH [OF this] have "full_tree d' ?c n" .
  with g length_digest [OF assms(1), of D "Suc i"] show ?case by simp
qed

lemma new_inv:
  assumes "digest32 h" "new h [] nm dep = Inr t0"
    and "collision_free h (db t0)" "name_fresh nm (db t0)"
  shows "tree_inv h nm t0"
proof -
  have g: "db_get [] (Buffer_from nm) = None" by (simp add: db_get_def)
  from assms(2) have "\<exists>t1. MerkleTree h [] nm dep None = Inr t1"
    by (auto simp: new_def g split: sum.splits)
  then have dep: "1 \<le> dep" "dep \<le> 32"
    by (auto simp: MerkleTree_def MAX_DEPTH_def split: if_splits)
  define D where "D = nat dep"
  have D: "1 \<le> D" "D \<le> 32" "int D = dep" using dep by (simp_all add: D_def)
  from new_fresh [OF assms(1) D(1,2) g] assms(2) D(3)
  have t0: "t0 = \<lparr>db = (Buffer_from nm, digest h D 0 @ u32le D @ [0, 0, 0, 0])
                      # level_entries h D D @ [],
                name = nm, depth = D, root = digest h D 0\<rparr>" by simp
  have ld: "\<And>i. length (digest h D i) = 32" using length_digest [OF assms(1)] .
  have ne: "\<forall>e\<in>set (level_entries h D D). node_entry h e"
    by (auto simp: level_entries_def node_entry_def ld digest_inner)
  have ca: "content_addressed h nm (db t0)"
    using ne unfolding t0 by (auto simp: content_addressed_iff meta_entry_def ld)
  from content_addressed_write_once [OF ca assms(3,4)] have wo: "write_once (db t0)" .
  have "set (level_entries h D D) \<subseteq> set (db t0)" unfolding t0 by auto
  from fresh_full [OF assms(1) wo this, of 0 D] have "full_tree (db t0) (digest h D 0) D" by simp
  then have "fully_constructed t0" using D ld unfolding t0 by (simp add: fully_constructed_def)
  with ca show ?thesis unfolding t0 by (simp add: tree_inv_def)
qed

text \<open>
  Claim C5. Build a tree with \<open>new\<close> on an empty store, over a hasher with 32-byte
  digests, and perform any sequence of updates that succeed. Assume what content
  addressing rests on: among the node values that the store has seen, different values
  have different digests, and none is stored under the name of the tree. Then every
  entry ever written is either the 40-byte metadata record under the name or a node
  entry whose key is \<open>compress\<close> of the two halves of its 64-byte value; no key that
  held a node value was ever written with another value; the tree is fully constructed;
  and the path of any index from the root of any earlier state of the run, read in the
  final store, is the path that the earlier tree gave.
\<close>

theorem content_addressing_invariant:
  assumes "digest32 h" "new h [] nm dep = Inr t0" "run_updates h t0 us = Some t"
    and "collision_free h (db t)" "name_fresh nm (db t)"
  shows "content_addressed h nm (db t) \<and> write_once (db t) \<and> fully_constructed t
         \<and> (\<forall>us1 us2 tk index. us = us1 @ us2 \<and> run_updates h t0 us1 = Some tk \<longrightarrow>
               map_option fst (getHashPath (t\<lparr>root := root tk\<rparr>) index)
                 = map_option fst (getHashPath tk index))"
proof -
  from run_updates_frame [OF assms(3)] have sub0: "set (db t0) \<subseteq> set (db t)" by simp
  from new_inv [OF assms(1,2) collision_free_subset [OF assms(4) sub0]
      name_fresh_subset [OF assms(5) sub0]]
  have i0: "tree_inv h nm t0" .
  from run_updates_inv [OF assms(1) i0 assms(3,4,5)] have i: "tree_inv h nm t" .
  then have ca: "content_addressed h nm (db t)" and fc: "fully_constructed t"
    by (simp_all add: tree_inv_def)
  from content_addressed_write_once [OF ca assms(4,5)] have wo: "write_once (db t)" .
  have old: "map_option fst (getHashPath (t\<lparr>root := root tk\<rparr>) index)
                 = map_option fst (getHashPath tk index)"
    if "us = us1 @ us2" "run_updates h t0 us1 = Some tk" for us1 us2 tk index
  proof -
    from that assms(3) have r2: "run_updates h tk us2 = Some t"
      by (simp add: run_updates_append)
    from run_updates_frame [OF r2] have sub: "set (db tk) \<subseteq> set (db t)"
      and dk: "depth t = depth tk" by simp_all
    from run_updates_inv [OF assms(1) i0 that(2) collision_free_subset [OF assms(4) sub]
        name_fresh_subset [OF assms(5) sub]]
    have "fully_constructed tk" by (simp add: tree_inv_def)
    then have d: "1 \<le> depth tk" and f: "full_tree (db tk) (root tk) (depth tk)"
      by (simp_all add: fully_constructed_def)
    from d obtain n where n: "depth tk = 0 + Suc n" by (cases "depth tk") auto
    let ?t = "t\<lparr>root := root tk\<rparr>"
    have "getHashPathRecursively ?t index (root tk) 0 = getHashPathRecursively tk index (root tk) 0"
      using getHashPathRecursively_stable [of ?t tk 0 n "root tk" index] wo sub dk n f by simp
    then show ?thesis by (simp add: getHashPath_def option.map_comp comp_def)
  qed
  from ca wo fc old show ?thesis by blast
qed

lemma demo_collision_free: "collision_free demo_hasher (db demo_tree')"
  by (simp add: collision_free_def demo_tree'_def demo_db_def demo_compress)

lemma demo_name_fresh: "name_fresh ''t'' (db demo_tree')"
  by (simp add: name_fresh_def demo_tree'_def demo_db_def Buffer_from_def neq_by_length)

theorem content_addressing_invariant_witness:
  "digest32 demo_hasher \<and> new demo_hasher [] ''t'' 2 = Inr demo_tree
   \<and> run_updates demo_hasher demo_tree [(3, replicate 64 1)] = Some demo_tree'
   \<and> collision_free demo_hasher (db demo_tree') \<and> name_fresh ''t'' (db demo_tree')
   \<and> content_addressed demo_hasher ''t'' (db demo_tree') \<and> write_once (db demo_tree')
   \<and> map_option fst (getHashPath (demo_tree'\<lparr>root := root demo_tree\<rparr>) 0)
       = map_option fst (getHashPath demo_tree 0)"
proof -
  have b: "run_updates demo_hasher demo_tree [(3, replicate 64 1)] = Some demo_tree'"
    by (simp add: demo_update)
  have e: "run_updates demo_hasher demo_tree [] = Some demo_tree" by simp
  from content_addressing_invariant [OF digest32_demo demo_new b demo_collision_free demo_name_fresh]
  have 1: "content_addressed demo_hasher ''t'' (db demo_tree')" "write_once (db demo_tree')"
    and 2: "\<And>us1 us2 tk index. [(3, replicate 64 1)] = us1 @ us2 \<Longrightarrow>
         run_updates demo_hasher demo_tree us1 = Some tk \<Longrightarrow>
         map_option fst (getHashPath (demo_tree'\<lparr>root := root tk\<rparr>) index)
           = map_option fst (getHashPath tk index)"
    by blast+
  from 2 [of "[]" "[(3, replicate 64 1)]" demo_tree 0] e
  have "map_option fst (getHashPath (demo_tree'\<lparr>root := root demo_tree\<rparr>) 0)
       = map_option fst (getHashPath demo_tree 0)" by simp
  with 1 digest32_demo demo_new b demo_collision_free demo_name_fresh show ?thesis by simp
qed

end
